theory Spec2Isabelle
  imports Complex_Main "HOL-Library.Word"
begin

unbundle bit_operations_syntax

section \<open>S-box analysis engine (analyzer.js)\<close>

text \<open>
  The analyser works on JavaScript arrays of numbers. An S-box is modelled as a list of
  natural numbers (the entries the dashboard hands over are integers in 0..255); counts and
  indices are naturals, Walsh coefficients and table biases are integers, and every value
  the source obtains by a division is a rational. All divisions of the source are by powers
  of two of integers below \<open>2 ^ 53\<close>, so the double arithmetic of the source is exact on
  them.
\<close>

subsection \<open>Bit utilities\<close>

text \<open>
  \<^verbatim>\<open>hammingWeight(n) { let weight = 0; while (n) { weight += n & 1; n >>= 1; } return weight; }\<close>
\<close>

function hammingWeight_loop :: "nat \<Rightarrow> nat \<Rightarrow> nat" where
  "hammingWeight_loop weight n =
     (if n \<noteq> 0 then hammingWeight_loop (weight + (n AND 1)) (drop_bit 1 n) else weight)"
  by pat_completeness auto
termination
  by (relation "measure (\<lambda>(weight, n). n)") (auto simp: drop_bit_eq_div)

declare hammingWeight_loop.simps [simp del]

definition hammingWeight :: "nat \<Rightarrow> nat" where
  "hammingWeight n = hammingWeight_loop 0 n"

definition precomputeHammingWeights :: "nat list" where
  "precomputeHammingWeights = map hammingWeight [0..<256]"

text \<open>The field \<^verbatim>\<open>this.hammingWeights\<close>, filled once by the constructor.\<close>

definition hammingWeights :: "nat list" where
  "hammingWeights = precomputeHammingWeights"

subsection \<open>Boolean functions and the Walsh-Hadamard transform\<close>

text \<open>
  \<^verbatim>\<open>truthTable[i] = (this.sbox[i] >> outputBit) & 1\<close> for \<open>i = 0..255\<close>. The lazily filled
  cache \<^verbatim>\<open>this.booleanFunctions\<close> only memoises this table, so the model recomputes it.
\<close>

definition getBooleanFunction :: "nat list \<Rightarrow> nat \<Rightarrow> nat list" where
  "getBooleanFunction sbox outputBit =
     map (\<lambda>i. drop_bit outputBit (sbox ! i) AND 1) [0..<256]"

text \<open>
  The two nested loops of \<^verbatim>\<open>walshHadamardTransform\<close>: for every mask \<open>w\<close> the accumulator
  \<^verbatim>\<open>sum\<close> starts at 0 and receives \<^verbatim>\<open>Math.pow(-1, truthTable[x] ^ dotProduct)\<close> for
  \<open>x = 0..255\<close>, where \<^verbatim>\<open>dotProduct = this.hammingWeights[x & w] & 1\<close>.
\<close>

definition walsh_term :: "nat list \<Rightarrow> nat \<Rightarrow> nat \<Rightarrow> int" where
  "walsh_term truthTable w x =
     (let dotProduct = (hammingWeights ! (x AND w)) AND 1
      in (- 1) ^ ((truthTable ! x) XOR dotProduct))"

definition walshHadamardTransform :: "nat list \<Rightarrow> int list" where
  "walshHadamardTransform truthTable =
     map (\<lambda>w. fold (\<lambda>x sum. sum + walsh_term truthTable w x) [0..<256] 0) [0..<256]"


subsection \<open>Nonlinearity\<close>

text \<open>
  The inner loop of \<^verbatim>\<open>calculateNonlinearity\<close> and \<^verbatim>\<open>calculateBIC_NL\<close>:
  \<^verbatim>\<open>maxWalsh = Math.max(maxWalsh, Math.abs(walsh[i]))\<close> for \<open>i = 1 .. walsh.length - 1\<close>.
\<close>

definition max_abs_walsh :: "int list \<Rightarrow> int" where
  "max_abs_walsh walsh =
     fold (\<lambda>i maxWalsh. max maxWalsh \<bar>walsh ! i\<bar>) [1..<length walsh] 0"

text \<open>\<^verbatim>\<open>(1 << (this.n - 1)) - (maxWalsh / 2)\<close> with \<open>n = 8\<close>.\<close>

definition nonlinearity_of :: "int list \<Rightarrow> rat" where
  "nonlinearity_of walsh = of_nat (push_bit (8 - 1) (1::nat)) - of_int (max_abs_walsh walsh) / 2"

definition bit_nonlinearity :: "nat list \<Rightarrow> nat \<Rightarrow> rat" where
  "bit_nonlinearity sbox obit =
     (let truthTable = getBooleanFunction sbox obit;
          walsh = walshHadamardTransform truthTable
      in nonlinearity_of walsh)"

text \<open>
  \<^verbatim>\<open>minNonlinearity\<close> starts as \<^verbatim>\<open>Infinity\<close>, which is \<open>None\<close> here; the loop body runs
  for the eight output bits, so the value returned is always a number.
\<close>

definition min_with_infinity :: "rat option \<Rightarrow> rat \<Rightarrow> rat option" where
  "min_with_infinity acc v = (case acc of None \<Rightarrow> Some v | Some m \<Rightarrow> Some (min m v))"

definition calculateNonlinearity :: "nat list \<Rightarrow> rat" where
  "calculateNonlinearity sbox =
     the (fold (\<lambda>obit minNonlinearity. min_with_infinity minNonlinearity (bit_nonlinearity sbox obit))
            [0..<8] None)"

subsection \<open>Strict avalanche criterion\<close>

definition sac_flipCount :: "nat list \<Rightarrow> nat \<Rightarrow> nat \<Rightarrow> nat" where
  "sac_flipCount sbox inputBit outputBit =
     fold (\<lambda>x flipCount.
             (let flippedX = x XOR push_bit inputBit 1;
                  y1 = sbox ! x;
                  y2 = sbox ! flippedX
              in if drop_bit outputBit y1 AND 1 \<noteq> drop_bit outputBit y2 AND 1
                 then flipCount + 1 else flipCount))
          [0..<256] 0"

definition sacMatrix :: "nat list \<Rightarrow> rat list list" where
  "sacMatrix sbox =
     map (\<lambda>inputBit. map (\<lambda>outputBit. of_nat (sac_flipCount sbox inputBit outputBit) / 256) [0..<8])
       [0..<8]"

record sac_result =
  matrix :: "rat list list"
  score :: rat
  maxDeviation :: rat

definition calculateSAC :: "nat list \<Rightarrow> sac_result" where
  "calculateSAC sbox =
     (let m = sacMatrix sbox;
          sacScore = fold (\<lambda>i s. fold (\<lambda>j s. s + \<bar>m ! i ! j - 1 / 2\<bar>) [0..<8] s) [0..<8] 0
      in \<lparr> matrix = m,
           score = sacScore / (8 * 8),
           maxDeviation = Max (set (map (\<lambda>x. \<bar>x - 1 / 2\<bar>) (concat m))) \<rparr>)"

subsection \<open>Bit independence criteria\<close>

text \<open>The pairs \<open>bit1 < bit2\<close> in the order of the two nested loops.\<close>

definition bit_pairs :: "(nat \<times> nat) list" where
  "bit_pairs = concat (map (\<lambda>bit1. map (\<lambda>bit2. (bit1, bit2)) [bit1 + 1..<8]) [0..<8])"

definition bic_nl_pair :: "nat list \<Rightarrow> nat \<Rightarrow> nat \<Rightarrow> rat" where
  "bic_nl_pair sbox bit1 bit2 =
     (let f1 = getBooleanFunction sbox bit1;
          f2 = getBooleanFunction sbox bit2;
          combined = map (\<lambda>x. (f1 ! x) XOR (f2 ! x)) [0..<256];
          walsh = walshHadamardTransform combined
      in nonlinearity_of walsh)"

record bic_nl_result =
  minNonlinearity :: rat
  averageNonlinearity :: rat
  nl_correlations :: "rat list"

text \<open>
  The two means of this subsection are exact quotients; the source divides doubles by 28,
  which rounds the quotient to the nearest double.
\<close>

definition calculateBIC_NL :: "nat list \<Rightarrow> bic_nl_result" where
  "calculateBIC_NL sbox =
     (let correlations = map (\<lambda>(bit1, bit2). bic_nl_pair sbox bit1 bit2) bit_pairs
      in \<lparr> minNonlinearity = Min (set correlations),
           averageNonlinearity = sum_list correlations / of_nat (length correlations),
           nl_correlations = correlations \<rparr>)"

definition bic_sac_pair :: "nat list \<Rightarrow> nat \<Rightarrow> nat \<Rightarrow> rat" where
  "bic_sac_pair sbox bit1 bit2 =
     (let correlation =
            fold (\<lambda>x correlation.
                    (let y = sbox ! x;
                         bit1Val = int (drop_bit bit1 y AND 1);
                         bit2Val = int (drop_bit bit2 y AND 1)
                     in correlation + (2 * bit1Val - 1) * (2 * bit2Val - 1)))
                 [0..<256] (0::int)
      in \<bar>of_int correlation / 256\<bar>)"

record bic_sac_result =
  maxCorrelation :: rat
  averageCorrelation :: rat
  sac_correlations :: "rat list"

definition calculateBIC_SAC :: "nat list \<Rightarrow> bic_sac_result" where
  "calculateBIC_SAC sbox =
     (let correlations = map (\<lambda>(bit1, bit2). bic_sac_pair sbox bit1 bit2) bit_pairs
      in \<lparr> maxCorrelation = Max (set correlations),
           averageCorrelation = sum_list correlations / of_nat (length correlations),
           sac_correlations = correlations \<rparr>)"

subsection \<open>Linear approximation table\<close>

definition lat_count :: "nat list \<Rightarrow> nat \<Rightarrow> nat \<Rightarrow> nat" where
  "lat_count sbox a b =
     fold (\<lambda>x count.
             (let inputParity = (hammingWeights ! (a AND x)) AND 1;
                  outputParity = (hammingWeights ! (b AND (sbox ! x))) AND 1
              in if inputParity = outputParity then count + 1 else count))
          [0..<256] 0"

text \<open>Every cell \<open>[a][b]\<close> is assigned once: \<^verbatim>\<open>count - (this.size / 2)\<close>.\<close>

definition buildLinearApproximationTable :: "nat list \<Rightarrow> int list list" where
  "buildLinearApproximationTable sbox =
     map (\<lambda>a. map (\<lambda>b. int (lat_count sbox a b) - 128) [0..<256]) [0..<256]"

record lap_result =
  maxBias :: int
  maxLAP :: rat
  lap_table :: "int list list"

definition lap_maxBias :: "int list list \<Rightarrow> int" where
  "lap_maxBias table =
     fold (\<lambda>a maxBias.
             fold (\<lambda>b maxBias. if a \<noteq> 0 \<or> b \<noteq> 0 then max maxBias \<bar>table ! a ! b\<bar> else maxBias)
               [0..<256] maxBias)
          [0..<256] 0"

definition calculateLAP :: "nat list \<Rightarrow> lap_result" where
  "calculateLAP sbox =
     (let table = buildLinearApproximationTable sbox;
          bias = lap_maxBias table
      in \<lparr> maxBias = bias,
           maxLAP = (of_int bias / of_nat (push_bit (8 - 1) (1::nat))) ^ 2,
           lap_table = table \<rparr>)"

subsection \<open>Difference distribution table\<close>

text \<open>
  \<^verbatim>\<open>this.differenceTable[inputDiff][outputDiff]++\<close>. Reading a cell of a row that does not
  exist is the one operation of the engine that can throw (a TypeError), so it is a branch of
  the model. A column index beyond the row writes a cell that no later loop reads; the 256
  columns of the row stay as they are.
\<close>

datatype js_error = TypeError

definition ddt_increment :: "nat list list \<Rightarrow> nat \<Rightarrow> nat \<Rightarrow> js_error + nat list list" where
  "ddt_increment table inputDiff outputDiff =
     (if inputDiff < length table
      then Inr (table[inputDiff := (table ! inputDiff)[outputDiff := table ! inputDiff ! outputDiff + 1]])
      else Inl TypeError)"

definition ddt_step :: "nat list \<Rightarrow> nat \<Rightarrow> nat \<Rightarrow> js_error + nat list list \<Rightarrow> js_error + nat list list" where
  "ddt_step sbox x1 x2 acc =
     (case acc of
        Inl e \<Rightarrow> Inl e
      | Inr table \<Rightarrow>
          (let inputDiff = x1 XOR x2;
               outputDiff = (sbox ! x1) XOR (sbox ! x2)
           in ddt_increment table inputDiff outputDiff))"

definition buildDifferenceDistributionTable :: "nat list \<Rightarrow> js_error + nat list list" where
  "buildDifferenceDistributionTable sbox =
     fold (\<lambda>x1 acc. fold (\<lambda>x2 acc. ddt_step sbox x1 x2 acc) [0..<256] acc) [0..<256]
       (Inr (replicate 256 (replicate 256 0)))"

record dap_result =
  maxDifferential :: nat
  maxDAP :: rat
  dap_table :: "nat list list"

definition dap_maxDiff :: "nat list list \<Rightarrow> nat" where
  "dap_maxDiff table =
     fold (\<lambda>i maxDiff. fold (\<lambda>j maxDiff. max maxDiff (table ! i ! j)) [0..<256] maxDiff)
       [1..<256] 0"

definition calculateDAP :: "nat list \<Rightarrow> js_error + dap_result" where
  "calculateDAP sbox =
     (case buildDifferenceDistributionTable sbox of
        Inl e \<Rightarrow> Inl e
      | Inr table \<Rightarrow>
          (let maxDiff = dap_maxDiff table
           in Inr \<lparr> maxDifferential = maxDiff,
                    maxDAP = of_nat maxDiff / 256,
                    dap_table = table \<rparr>))"

definition calculateDifferentialUniformity :: "nat list \<Rightarrow> js_error + nat" where
  "calculateDifferentialUniformity sbox =
     (case calculateDAP sbox of Inl e \<Rightarrow> Inl e | Inr dap \<Rightarrow> Inr (maxDifferential dap))"

subsection \<open>Algebraic degree\<close>

text \<open>
  The in-place M\"obius transform: \<^verbatim>\<open>if ((mask >> i) & 1) anf[mask] ^= anf[mask ^ (1 << i)]\<close>.
  The truth tables it is applied to have 256 entries.
\<close>

definition computeANF :: "nat list \<Rightarrow> nat list" where
  "computeANF truthTable =
     fold (\<lambda>i anf.
             fold (\<lambda>mask anf.
                     if drop_bit i mask AND 1 \<noteq> 0
                     then anf[mask := (anf ! mask) XOR (anf ! (mask XOR push_bit i 1))]
                     else anf)
                  [0..<256] anf)
          [0..<8] truthTable"

definition calculateBooleanFunctionDegree :: "nat list \<Rightarrow> nat" where
  "calculateBooleanFunctionDegree truthTable =
     (let anf = computeANF truthTable
      in fold (\<lambda>trm maxDegree.
                 if anf ! trm = 1 then max maxDegree (hammingWeights ! trm) else maxDegree)
              [0..<256] 0)"

definition calculateAlgebraicDegree :: "nat list \<Rightarrow> nat" where
  "calculateAlgebraicDegree sbox =
     fold (\<lambda>obit maxDegree.
             max maxDegree (calculateBooleanFunctionDegree (getBooleanFunction sbox obit)))
          [0..<8] 0"

subsection \<open>Transparency order\<close>

text \<open>
  The contingency table has four rows; \<^verbatim>\<open>expected = this.size / 8\<close>. The value is the real
  square root; \<^verbatim>\<open>Math.sqrt\<close> returns the double nearest to it.
\<close>

definition contingencyTable :: "nat list \<Rightarrow> nat \<Rightarrow> nat \<Rightarrow> nat \<Rightarrow> nat list list" where
  "contingencyTable sbox inputBit1 inputBit2 outputMask =
     fold (\<lambda>x table.
             (let bit1 = drop_bit inputBit1 x AND 1;
                  bit2 = drop_bit inputBit2 x AND 1;
                  index = push_bit 1 bit1 OR bit2;
                  output = sbox ! x;
                  maskedOutput = (hammingWeights ! (output AND outputMask)) AND 1
              in table[index := (table ! index)[maskedOutput := table ! index ! maskedOutput + 1]]))
          [0..<256] (replicate 4 (replicate 256 0))"

definition chiSquared :: "nat list list \<Rightarrow> rat" where
  "chiSquared table =
     (let expected = (256::rat) / 8
      in fold (\<lambda>i chi.
                 fold (\<lambda>j chi.
                         (let observed = of_nat (table ! i ! j)
                          in if expected > 0 then chi + (observed - expected) ^ 2 / expected else chi))
                      [0..<2] chi)
              [0..<4] 0)"

definition computeTransparencyOrderForMask :: "nat list \<Rightarrow> nat \<Rightarrow> nat \<Rightarrow> nat \<Rightarrow> real" where
  "computeTransparencyOrderForMask sbox inputBit1 inputBit2 outputMask =
     sqrt (of_rat (chiSquared (contingencyTable sbox inputBit1 inputBit2 outputMask)))"

definition calculateTransparencyOrder :: "nat list \<Rightarrow> real" where
  "calculateTransparencyOrder sbox =
     fold (\<lambda>(i, j) maxOrder.
             fold (\<lambda>outputMask maxOrder.
                     max maxOrder (computeTransparencyOrderForMask sbox i j outputMask))
                  [1..<256] maxOrder)
          bit_pairs 0"

subsection \<open>Correlation immunity\<close>

text \<open>
  The mask loop stops at the first mask of the given weight whose Walsh coefficient is zero
  and sets \<^verbatim>\<open>hasZeroWalsh\<close>; the weight loop runs from 1 to 8 and stops at the first weight
  without such a mask.
\<close>

definition hasZeroWalsh :: "int list \<Rightarrow> nat \<Rightarrow> bool" where
  "hasZeroWalsh walsh weight =
     list_ex (\<lambda>mask. hammingWeights ! mask = weight \<and> walsh ! mask = 0) [0..<256]"

fun ci_loop :: "int list \<Rightarrow> nat list \<Rightarrow> nat \<Rightarrow> nat" where
  "ci_loop walsh [] ci = ci"
| "ci_loop walsh (weight # weights) ci =
     (if hasZeroWalsh walsh weight then ci_loop walsh weights weight else ci)"

definition bit_correlation_immunity :: "int list \<Rightarrow> nat" where
  "bit_correlation_immunity walsh = ci_loop walsh [1..<8 + 1] 0"

definition calculateCorrelationImmunity :: "nat list \<Rightarrow> nat" where
  "calculateCorrelationImmunity sbox =
     fold (\<lambda>obit maxCI.
             max maxCI (bit_correlation_immunity
                          (walshHadamardTransform (getBooleanFunction sbox obit))))
          [0..<8] 0"

subsection \<open>Balance and bijection\<close>

text \<open>
  \<^verbatim>\<open>counts[value]++\<close> on 256 zeros, then \<^verbatim>\<open>counts.every(count => count === 1)\<close>. A value
  beyond 255 makes \<^verbatim>\<open>counts[value]\<close> a cell holding \<^verbatim>\<open>NaN\<close>, which fails the test: the second
  conjunct.
\<close>

definition isBalanced :: "nat list \<Rightarrow> bool" where
  "isBalanced sbox =
     (let counts = fold (\<lambda>value counts. counts[value := counts ! value + 1]) sbox (replicate 256 (0::nat))
      in list_all (\<lambda>count. count = 1) counts \<and> list_all (\<lambda>value. value < 256) sbox)"

text \<open>\<^verbatim>\<open>new Set(this.sbox).size === this.size\<close>\<close>

definition isBijection :: "nat list \<Rightarrow> bool" where
  "isBijection sbox = (card (set sbox) = 256)"

subsection \<open>The analyser and the full analysis\<close>

datatype sbox_error = InvalidSBoxLength | InvalidSBoxValue | NotAPermutation

text \<open>
  The constructor throws unless the array has exactly 256 entries; it checks nothing else.
  It copies the array and fills the Hamming weight table (\<^const>\<open>hammingWeights\<close>). The
  analyser is identified with its copy of the S-box.
\<close>

definition new_SBoxAnalyzer :: "nat list \<Rightarrow> sbox_error + nat list" where
  "new_SBoxAnalyzer sboxArray =
     (if length sboxArray \<noteq> 256 then Inl InvalidSBoxLength else Inr sboxArray)"

record sbox_properties =
  sbox_size :: nat
  isBalanced_flag :: bool
  isBijection_flag :: bool

record report =
  sboxProperties :: sbox_properties
  nonlinearity :: rat
  sac :: sac_result
  differentialUniformity :: nat
  algebraicDegree :: nat
  lap :: lap_result
  dap :: dap_result
  bicNL :: bic_nl_result
  bicSAC :: bic_sac_result
  correlationImmunity :: nat
  transparencyOrder :: real

text \<open>
  \<^verbatim>\<open>runFullAnalysis\<close> fills the result object field by field inside a \<^verbatim>\<open>try\<close>; an exception
  leaves the fields assigned so far and the message in \<^verbatim>\<open>results.error\<close>. The only evaluator
  with a throwing branch is the first use of the difference table, in
  \<^verbatim>\<open>calculateDifferentialUniformity\<close>; the later \<^verbatim>\<open>calculateDAP\<close> reads the cached table.
  The timestamp and the asynchronous scheduling of the transparency order are left out.
\<close>

record partial_report =
  partial_sboxProperties :: sbox_properties
  partial_nonlinearity :: rat
  partial_sac :: sac_result
  error :: js_error

datatype analysis = Completed report | Failed partial_report

definition runFullAnalysis :: "nat list \<Rightarrow> analysis" where
  "runFullAnalysis sbox =
     (let props = \<lparr> sbox_size = 256, isBalanced_flag = isBalanced sbox,
                    isBijection_flag = isBijection sbox \<rparr>;
          nl = calculateNonlinearity sbox;
          s = calculateSAC sbox
      in case calculateDAP sbox of
           Inl e \<Rightarrow>
             Failed \<lparr> partial_sboxProperties = props, partial_nonlinearity = nl,
                      partial_sac = s, error = e \<rparr>
         | Inr d \<Rightarrow>
             Completed \<lparr> sboxProperties = props,
                         nonlinearity = nl,
                         sac = s,
                         differentialUniformity = maxDifferential d,
                         algebraicDegree = calculateAlgebraicDegree sbox,
                         lap = calculateLAP sbox,
                         dap = d,
                         bicNL = calculateBIC_NL sbox,
                         bicSAC = calculateBIC_SAC sbox,
                         correlationImmunity = calculateCorrelationImmunity sbox,
                         transparencyOrder = calculateTransparencyOrder sbox \<rparr>)"

subsection \<open>Security summary\<close>

text \<open>
  The strings pushed by \<^verbatim>\<open>generateSummary\<close>; the two weaknesses that quote a number carry
  it: \<^verbatim>\<open>`Low nonlinearity (${results.nonlinearity})`\<close> and
  \<^verbatim>\<open>`High differential uniformity (${results.differentialUniformity})`\<close>.
  The threshold \<^verbatim>\<open>0.1\<close> of the source is the double nearest to one tenth. A SAC score is a
  multiple of \<open>1 / 16384\<close>; the largest one not above one tenth is \<open>1638 / 16384\<close> and the next
  is \<open>1639 / 16384\<close>, so comparing with the double and with the rational \<open>1 / 10\<close> agree.
\<close>

datatype strength =
    HighNonlinearity
  | GoodDifferentialUniformity
  | GoodLinearResistance
  | SatisfiesSAC

datatype weakness =
    LowNonlinearity rat
  | HighDifferentialUniformity nat
  | VulnerableToLinearCryptanalysis
  | PoorAvalancheProperties

datatype security_level = Unknown | High | Medium | Low

record summary =
  securityLevel :: security_level
  recommendations :: "string list"
  strengths :: "strength list"
  weaknesses :: "weakness list"

definition generateSummary :: "report \<Rightarrow> summary" where
  "generateSummary results =
     (let s0 = \<lparr> securityLevel = Unknown, recommendations = [], strengths = [], weaknesses = [] \<rparr>;
          s1 = (if nonlinearity results \<ge> 100
                then s0\<lparr> strengths := strengths s0 @ [HighNonlinearity] \<rparr>
                else s0\<lparr> weaknesses := weaknesses s0 @ [LowNonlinearity (nonlinearity results)] \<rparr>);
          s2 = (if differentialUniformity results \<le> 4
                then s1\<lparr> strengths := strengths s1 @ [GoodDifferentialUniformity] \<rparr>
                else s1\<lparr> weaknesses := weaknesses s1 @
                            [HighDifferentialUniformity (differentialUniformity results)] \<rparr>);
          s3 = (if maxBias (lap results) \<le> 32
                then s2\<lparr> strengths := strengths s2 @ [GoodLinearResistance] \<rparr>
                else s2\<lparr> weaknesses := weaknesses s2 @ [VulnerableToLinearCryptanalysis] \<rparr>);
          s4 = (if score (sac results) \<le> 1 / 10
                then s3\<lparr> strengths := strengths s3 @ [SatisfiesSAC] \<rparr>
                else s3\<lparr> weaknesses := weaknesses s3 @ [PoorAvalancheProperties] \<rparr>)
      in if length (weaknesses s4) = 0 then s4\<lparr> securityLevel := High \<rparr>
         else if length (weaknesses s4) \<le> 2 then s4\<lparr> securityLevel := Medium \<rparr>
         else s4\<lparr> securityLevel := Low \<rparr>)"


section \<open>Dashboard (script.js)\<close>

subsection \<open>Validation of uploaded values\<close>

text \<open>
  \<^verbatim>\<open>validateSBoxValues\<close> is called by the CSV and the Excel parser on the parsed numbers
  (integers: \<^verbatim>\<open>parseValue\<close> rounds or parses them). It throws an \<^verbatim>\<open>Error\<close> whose message
  tells the cause; the three causes are the constructors of \<^typ>\<open>sbox_error\<close>: a wrong
  length, a value outside 0..255, and a duplicated or a missing value.
\<close>

fun validate_scan :: "int list \<Rightarrow> int list \<Rightarrow> sbox_error + int list" where
  "validate_scan [] seen = Inr seen"
| "validate_scan (val # vals) seen =
     (if val < 0 \<or> val > 255 then Inl InvalidSBoxValue
      else if val \<in> set seen then Inl NotAPermutation
      else validate_scan vals (val # seen))"

definition validateSBoxValues :: "int list \<Rightarrow> sbox_error + unit" where
  "validateSBoxValues values =
     (if length values \<noteq> 256 then Inl InvalidSBoxLength
      else case validate_scan values [] of
             Inl e \<Rightarrow> Inl e
           | Inr seen \<Rightarrow>
               (let missingValues = filter (\<lambda>i. i \<notin> set seen) (map int [0..<256])
                in if length missingValues > 0 then Inl NotAPermutation else Inr ()))"

subsection \<open>Running the analysis\<close>

text \<open>
  \<^verbatim>\<open>runAnalysis\<close> builds an analyser from \<^verbatim>\<open>this.currentSBox\<close>, runs the full analysis and
  the summary, and reports "Analysis failed" when any of them throws. The current S-box
  comes from an upload (validated), from the random generator, from the built-in table or
  from local storage (the last two are not validated). The summary of a result object that
  lacks \<^verbatim>\<open>results.lap\<close> throws a TypeError.
\<close>

definition runAnalysis :: "nat list \<Rightarrow> (sbox_error + js_error) + report \<times> summary" where
  "runAnalysis currentSBox =
     (case new_SBoxAnalyzer currentSBox of
        Inl e \<Rightarrow> Inl (Inl e)
      | Inr analyzer \<Rightarrow>
          (case runFullAnalysis analyzer of
             Failed p \<Rightarrow> Inl (Inr TypeError)
           | Completed results \<Rightarrow> Inr (results, generateSummary results)))"

subsection \<open>The built-in table\<close>

text \<open>The array literal \<^verbatim>\<open>standardSBox\<close> of \<^verbatim>\<open>loadStandardAESSBox\<close>, entry by entry.\<close>

definition standardSBox :: "nat list" where
  "standardSBox =
     [99, 124, 119, 123, 242, 107, 111, 197, 48, 1, 103, 43, 254, 215, 171, 118,
      202, 130, 201, 125, 250, 89, 71, 240, 173, 212, 162, 175, 156, 164, 114, 192,
      183, 253, 147, 38, 54, 63, 247, 204, 52, 165, 229, 241, 113, 216, 49, 21,
      4, 199, 35, 195, 24, 150, 5, 154, 7, 18, 128, 226, 235, 39, 178, 117,
      9, 131, 44, 26, 27, 110, 90, 160, 82, 59, 214, 179, 41, 227, 47, 132,
      83, 209, 0, 237, 32, 252, 177, 91, 106, 203, 190, 57, 74, 76, 88, 207,
      208, 239, 170, 251, 67, 77, 51, 103, 133, 69, 249, 2, 127, 80, 60, 159,
      168, 81, 163, 64, 143, 146, 157, 56, 245, 188, 182, 218, 33, 16, 255, 243,
      210, 205, 12, 19, 236, 95, 151, 68, 23, 196, 167, 126, 61, 100, 93, 25,
      115, 96, 129, 79, 220, 34, 42, 144, 136, 70, 238, 184, 20, 222, 94, 11,
      219, 224, 50, 58, 10, 73, 6, 36, 92, 194, 211, 172, 98, 145, 149, 228,
      121, 231, 200, 55, 109, 141, 213, 78, 169, 108, 86, 244, 234, 101, 122, 174,
      8, 186, 120, 37, 46, 28, 166, 180, 198, 232, 221, 116, 31, 75, 189, 139,
      138, 112, 62, 181, 102, 72, 3, 246, 14, 97, 53, 87, 185, 134, 193, 29,
      158, 225, 248, 152, 17, 105, 217, 142, 148, 155, 30, 135, 233, 206, 85, 40,
      223, 140, 161, 137, 13, 191, 230, 66, 104, 65, 153, 45, 15, 176, 84, 187]"

section \<open>Inputs of the claims\<close>

definition is_permutation :: "nat list \<Rightarrow> bool" where
  "is_permutation sbox \<longleftrightarrow> length sbox = 256 \<and> set sbox = {0..<256}"

definition is_byte_array :: "nat list \<Rightarrow> bool" where
  "is_byte_array sbox \<longleftrightarrow> length sbox = 256 \<and> list_all (\<lambda>v. v < 256) sbox"

definition identity_sbox :: "nat list" where
  "identity_sbox = [0..<256]"

text \<open>A sequence of length 256 with 7 twice and 42 missing.\<close>

definition duplicate7_missing42 :: "nat list" where
  "duplicate7_missing42 = [0..<256][42 := 7]"


section \<open>Specification-level notions\<close>

subsection \<open>Contents of the difference distribution table\<close>

text \<open>
  The table cell that the pair \<open>(x1, x2)\<close> increments, the increment itself, and the number
  of inputs \<open>x\<close> with \<open>S[x] XOR S[x XOR a] = b\<close>, which the table holds at \<open>[a][b]\<close> once
  it is built.
\<close>

definition cell_incr :: "nat \<times> nat \<Rightarrow> nat list list \<Rightarrow> nat list list" where
  "cell_incr p t = t[fst p := (t ! fst p)[snd p := t ! fst p ! snd p + 1]]"

definition ddt_cell :: "nat list \<Rightarrow> nat \<times> nat \<Rightarrow> nat \<times> nat" where
  "ddt_cell sbox p = (fst p XOR snd p, (sbox ! fst p) XOR (sbox ! snd p))"

definition ddt_count :: "nat list \<Rightarrow> nat \<Rightarrow> nat \<Rightarrow> nat" where
  "ddt_count sbox a b = card {x. x < 256 \<and> (sbox ! x) XOR (sbox ! (x XOR a)) = b}"

definition ddt_table :: "nat list \<Rightarrow> nat list list" where
  "ddt_table sbox = map (\<lambda>a. map (\<lambda>b. ddt_count sbox a b) [0..<256]) [0..<256]"

subsection \<open>The number of one bits\<close>

fun popcount :: "nat \<Rightarrow> nat" where
  "popcount n = (if n = 0 then 0 else n mod 2 + popcount (n div 2))"

declare popcount.simps [simp del]

subsection \<open>Tables of size \<open>2 ^ n\<close> as binary tries\<close>

text \<open>
  A table indexed by \<open>0 .. 2 ^ n - 1\<close> is kept as a trie that branches on the bits of the
  index, lowest bit first: the left subtrie holds the even indices. The transforms of the
  analysis (Walsh-Hadamard, M\"obius, the shuffle \<open>x \<mapsto> x XOR a\<close>) are structural
  recursions on this shape, which is how the metrics of a concrete S-box are evaluated
  below.
\<close>

datatype 'a trie = Lf 'a | Nd "'a trie" "'a trie"

fun full :: "nat \<Rightarrow> 'a trie \<Rightarrow> bool" where
  "full 0 (Lf v) = True"
| "full (Suc n) (Nd l r) = (full n l \<and> full n r)"
| "full 0 (Nd l r) = False"
| "full (Suc n) (Lf v) = False"

fun get :: "'a trie \<Rightarrow> nat \<Rightarrow> 'a" where
  "get (Lf v) x = v"
| "get (Nd l r) x = (if even x then get l (x div 2) else get r (x div 2))"

fun interleave :: "'a list \<Rightarrow> 'a list \<Rightarrow> 'a list" where
  "interleave (x # xs) (y # ys) = x # y # interleave xs ys"
| "interleave [] ys = []"
| "interleave (x # xs) [] = []"

fun flat :: "'a trie \<Rightarrow> 'a list" where
  "flat (Lf v) = [v]"
| "flat (Nd l r) = interleave (flat l) (flat r)"

fun zipt :: "('a \<Rightarrow> 'b \<Rightarrow> 'c) \<Rightarrow> 'a trie \<Rightarrow> 'b trie \<Rightarrow> 'c trie" where
  "zipt f (Lf a) (Lf b) = Lf (f a b)"
| "zipt f (Nd a b) (Nd c d) = Nd (zipt f a c) (zipt f b d)"
| "zipt f (Lf a) (Nd c d) = Lf (f a (get (Nd c d) 0))"
| "zipt f (Nd a b) (Lf c) = Lf (f (get (Nd a b) 0) c)"

text \<open>The table \<open>x \<mapsto> t[x XOR a]\<close>.\<close>

fun xorperm :: "nat \<Rightarrow> 'a trie \<Rightarrow> 'a trie" where
  "xorperm a (Lf v) = Lf v"
| "xorperm a (Nd l r) =
     (if even a then Nd (xorperm (a div 2) l) (xorperm (a div 2) r)
      else Nd (xorperm (a div 2) r) (xorperm (a div 2) l))"

text \<open>The fast Walsh-Hadamard transform.\<close>

fun fwht :: "int trie \<Rightarrow> int trie" where
  "fwht (Lf a) = Lf a"
| "fwht (Nd l r) = (let a = fwht l; b = fwht r in Nd (zipt (+) a b) (zipt (-) a b))"

text \<open>The largest absolute value of a table, and the same without the entry at index 0.\<close>

fun maxabs :: "int trie \<Rightarrow> int" where
  "maxabs (Lf a) = \<bar>a\<bar>"
| "maxabs (Nd l r) = max (maxabs l) (maxabs r)"

fun maxabs0 :: "int trie \<Rightarrow> int" where
  "maxabs0 (Lf a) = 0"
| "maxabs0 (Nd l r) = max (maxabs0 l) (maxabs r)"

text \<open>Counting the entries with a property, and the histogram of the entries.\<close>

fun countp :: "('a \<Rightarrow> bool) \<Rightarrow> 'a trie \<Rightarrow> nat" where
  "countp P (Lf v) = (if P v then 1 else 0)"
| "countp P (Nd l r) = countp P l + countp P r"

fun zeros :: "nat \<Rightarrow> nat trie" where
  "zeros 0 = Lf 0"
| "zeros (Suc n) = Nd (zeros n) (zeros n)"

fun incr :: "nat trie \<Rightarrow> nat \<Rightarrow> nat trie" where
  "incr (Lf c) v = Lf (Suc c)"
| "incr (Nd l r) v = (if even v then Nd (incr l (v div 2)) r else Nd l (incr r (v div 2)))"

fun hist :: "nat trie \<Rightarrow> nat trie \<Rightarrow> nat trie" where
  "hist (Lf v) h = incr h v"
| "hist (Nd l r) h = hist r (hist l h)"

fun maxnat :: "nat trie \<Rightarrow> nat" where
  "maxnat (Lf c) = c"
| "maxnat (Nd l r) = max (maxnat l) (maxnat r)"

text \<open>
  One pass of the M\"obius transform: every entry whose index has bit \<open>i\<close> set receives
  the entry of the index with that bit cleared.
\<close>

fun mpass :: "nat \<Rightarrow> nat trie \<Rightarrow> nat trie" where
  "mpass i (Lf v) = Lf v"
| "mpass 0 (Nd l r) = Nd l (zipt (XOR) r l)"
| "mpass (Suc i) (Nd l r) = Nd (mpass i l) (mpass i r)"

text \<open>
  The largest number of one bits among the indices that hold a 1, offset by the number
  \<open>k\<close> of one bits on the path to the subtrie.
\<close>

fun degt :: "nat trie \<Rightarrow> nat \<Rightarrow> nat" where
  "degt (Lf v) k = (if v = 1 then k else 0)"
| "degt (Nd l r) k = max (degt l k) (degt r (Suc k))"


subsection \<open>Notions used to state what the loops compute\<close>

definition sgn_of :: "nat \<Rightarrow> int" where
  "sgn_of k = (- 1) ^ k"

definition maxi :: "('b \<Rightarrow> 'a::{linorder,zero}) \<Rightarrow> 'b set \<Rightarrow> 'a" where
  "maxi f A = Max (insert 0 (f ` A))"

definition bit_sign :: "nat \<Rightarrow> nat \<Rightarrow> int" where
  "bit_sign b y = (- 1) ^ (drop_bit b y AND 1)"

definition mask_sign :: "nat \<Rightarrow> nat \<Rightarrow> int" where
  "mask_sign b y = sgn_of (popcount (b AND y))"

definition diff_row :: "nat trie \<Rightarrow> nat \<Rightarrow> nat trie" where
  "diff_row T a = zipt (XOR) T (xorperm a T)"

definition flips :: "nat \<Rightarrow> nat \<Rightarrow> nat \<Rightarrow> bool" where
  "flips j y1 y2 \<longleftrightarrow> drop_bit j y1 AND 1 \<noteq> drop_bit j y2 AND 1"

definition anf_pass :: "nat \<Rightarrow> nat list \<Rightarrow> nat list" where
  "anf_pass i anf =
     fold (\<lambda>mask anf.
             if drop_bit i mask AND 1 \<noteq> 0
             then anf[mask := (anf ! mask) XOR (anf ! (mask XOR push_bit i 1))]
             else anf)
          [0..<256] anf"

definition anf_step :: "nat \<Rightarrow> nat \<Rightarrow> nat list \<Rightarrow> nat list" where
  "anf_step i m anf =
     (if bit m i then anf[m := (anf ! m) XOR (anf ! (m XOR 2 ^ i))] else anf)"

definition mobius :: "nat trie \<Rightarrow> nat trie" where
  "mobius T = mpass 7 (mpass 6 (mpass 5 (mpass 4 (mpass 3 (mpass 2 (mpass 1 (mpass 0 T)))))))"

definition bit_of :: "nat \<Rightarrow> nat \<Rightarrow> nat" where
  "bit_of b y = drop_bit b y AND 1"

definition ci_exists :: "int list \<Rightarrow> nat" where
  "ci_exists walsh =
     Max {k. k \<le> 8 \<and> (\<forall>j. 1 \<le> j \<and> j \<le> k \<longrightarrow> (\<exists>m<256. popcount m = j \<and> walsh ! m = 0))}"

section \<open>Properties of the analysis engine\<close>

subsection \<open>Loops that accumulate a sum\<close>

lemma fold_add_sum_list:
  "fold (\<lambda>x s. s + f x) xs (a::'a::comm_monoid_add) = a + sum_list (map f xs)"
  by (induction xs arbitrary: a) (simp_all add: add.assoc)

lemma sum_list_signs_bound:
  assumes "\<And>x. x \<in> set xs \<Longrightarrow> f x = (1::int) \<or> f x = - 1"
  shows "\<bar>sum_list (map f xs)\<bar> \<le> int (length xs)"
  using assms
proof (induction xs)
  case Nil
  then show ?case by simp
next
  case (Cons y ys)
  have "\<bar>sum_list (map f ys)\<bar> \<le> int (length ys)"
    using Cons by simp
  moreover have "f y = 1 \<or> f y = - 1"
    using Cons.prems by simp
  ultimately show ?case by auto
qed

lemma sum_list_signs_parity:
  assumes "\<And>x. x \<in> set xs \<Longrightarrow> f x = (1::int) \<or> f x = - 1"
  shows "even (sum_list (map f xs)) \<longleftrightarrow> even (length xs)"
  using assms
proof (induction xs)
  case Nil
  then show ?case by simp
next
  case (Cons y ys)
  have "even (sum_list (map f ys)) \<longleftrightarrow> even (length ys)"
    using Cons by simp
  moreover have "f y = 1 \<or> f y = - 1"
    using Cons.prems by simp
  ultimately show ?case by auto
qed

lemma walsh_term_sign: "walsh_term tt w x = 1 \<or> walsh_term tt w x = - 1"
  unfolding walsh_term_def Let_def
  by (cases "even ((tt ! x) XOR ((hammingWeights ! (x AND w)) AND 1))") simp_all

lemma walsh_nth:
  "w < 256 \<Longrightarrow>
     walshHadamardTransform tt ! w = sum_list (map (walsh_term tt w) [0..<256])"
  unfolding walshHadamardTransform_def
  by (simp add: fold_add_sum_list del: upt_Suc)

lemma length_walsh [simp]: "length (walshHadamardTransform tt) = 256"
  by (simp add: walshHadamardTransform_def)

lemma walsh_even: "w < 256 \<Longrightarrow> even (walshHadamardTransform tt ! w)"
  using sum_list_signs_parity [of "[0..<256]" "walsh_term tt w"] walsh_term_sign
  by (simp add: walsh_nth del: upt_Suc)

lemma walsh_abs_le: "w < 256 \<Longrightarrow> \<bar>walshHadamardTransform tt ! w\<bar> \<le> 256"
  using sum_list_signs_bound [of "[0..<256]" "walsh_term tt w"] walsh_term_sign
  by (simp add: walsh_nth del: upt_Suc)


subsection \<open>Bit operations below 256\<close>

lemma xor_lt_256: "x < 256 \<Longrightarrow> y < 256 \<Longrightarrow> x XOR y < (256::nat)"
proof -
  assume "x < 256" "y < 256"
  then have "take_bit 8 x = x" "take_bit 8 y = y"
    by (simp_all add: take_bit_nat_eq_self_iff)
  then have "take_bit 8 (x XOR y) = x XOR y"
    by (simp add: take_bit_xor)
  then have "x XOR y < 2 ^ 8"
    by (simp only: take_bit_nat_eq_self_iff)
  then show ?thesis by simp
qed

lemma and_le_nat: "x AND y \<le> (x::nat)"
  by (metis AND_upper1 of_nat_0_le_iff of_nat_and_eq of_nat_le_iff)

lemma and_lt_256: "x < 256 \<Longrightarrow> x AND y < (256::nat)"
  using and_le_nat [of x y] by simp

lemma xor_eq_iff: "(x::nat) XOR y = a \<longleftrightarrow> y = x XOR a"
  by (metis xor.assoc xor_self_eq xor.left_neutral)

lemma hist1_length: "length (fold (\<lambda>v c. c[v := Suc (c ! v)]) xs c0) = length c0"
  by (induction xs arbitrary: c0) simp_all

lemma hist1_nth:
  "k < length c0 \<Longrightarrow> fold (\<lambda>v c. c[v := Suc (c ! v)]) xs c0 ! k = c0 ! k + count_list xs k"
  by (induction xs arbitrary: c0) (auto simp: nth_list_update)

lemma length_cell_incr [simp]: "length (cell_incr p t) = length t"
  by (simp add: cell_incr_def)

lemma length_cell_incr_row [simp]:
  "a < length t \<Longrightarrow> length (cell_incr p t ! a) = length (t ! a)"
  by (cases "fst p = a") (simp_all add: cell_incr_def)

lemma hist2_length: "length (fold cell_incr ps t) = length t"
  by (induction ps arbitrary: t) simp_all

lemma hist2_row_length: "a < length t \<Longrightarrow> length (fold cell_incr ps t ! a) = length (t ! a)"
  by (induction ps arbitrary: t) simp_all

lemma hist2_nth:
  "a < length t \<Longrightarrow> b < length (t ! a) \<Longrightarrow>
   fold cell_incr ps t ! a ! b = t ! a ! b + length (filter (\<lambda>p. p = (a, b)) ps)"
proof (induction ps arbitrary: t)
  case Nil
  then show ?case by simp
next
  case (Cons p ps)
  have "fold cell_incr ps (cell_incr p t) ! a ! b
        = cell_incr p t ! a ! b + length (filter (\<lambda>p. p = (a, b)) ps)"
    using Cons.prems by (intro Cons.IH) simp_all
  moreover have "cell_incr p t ! a ! b = t ! a ! b + (if p = (a, b) then 1 else 0)"
  proof (cases "fst p = a")
    case True
    then show ?thesis
      using Cons.prems by (cases p) (auto simp: cell_incr_def nth_list_update)
  next
    case False
    then show ?thesis
      by (cases p) (auto simp: cell_incr_def)
  qed
  ultimately show ?case by simp
qed

lemma fold_nested_product:
  "fold (\<lambda>x acc. fold (\<lambda>y acc. F x y acc) ys acc) xs acc
   = fold (\<lambda>(x, y) acc. F x y acc) (List.product xs ys) acc"
  by (induction xs arbitrary: acc) (simp_all add: fold_map comp_def)

lemma fold_ddt_step:
  assumes "\<forall>p \<in> set ps. fst (ddt_cell sbox p) < length t"
  shows "fold (\<lambda>(x1, x2) acc. ddt_step sbox x1 x2 acc) ps (Inr t)
         = Inr (fold cell_incr (map (ddt_cell sbox) ps) t)"
  using assms
proof (induction ps arbitrary: t)
  case Nil
  then show ?case by simp
next
  case (Cons p ps)
  obtain x1 x2 where p: "p = (x1, x2)" by (cases p)
  have step: "ddt_step sbox x1 x2 (Inr t) = Inr (cell_incr (ddt_cell sbox p) t)"
    using Cons.prems by (simp add: p ddt_step_def ddt_increment_def cell_incr_def ddt_cell_def Let_def)
  have "\<forall>q \<in> set ps. fst (ddt_cell sbox q) < length (cell_incr (ddt_cell sbox p) t)"
    using Cons.prems by simp
  from Cons.IH [OF this] show ?case
    by (simp add: p step)
qed

lemma count_pairs:
  assumes "a < 256"
  shows "length (filter (\<lambda>p. ddt_cell sbox p = (a, b)) (List.product [0..<256] [0..<256]))
         = ddt_count sbox a b"
proof -
  let ?B = "{x. x < 256 \<and> (sbox ! x) XOR (sbox ! (x XOR a)) = b}"
  have d: "distinct (List.product [0..<256] [0..<(256::nat)])"
    by (simp add: distinct_product)
  have "length (filter (\<lambda>p. ddt_cell sbox p = (a, b)) (List.product [0..<256] [0..<256]))
        = card {p \<in> set (List.product [0..<256] [0..<256]). ddt_cell sbox p = (a, b)}"
    using d by (simp add: distinct_length_filter Int_def conj_commute)
  also have "{p \<in> set (List.product [0..<256] [0..<256]). ddt_cell sbox p = (a, b)}
             = (\<lambda>x. (x, x XOR a)) ` ?B"
    using assms by (auto simp: ddt_cell_def xor_eq_iff xor_lt_256 image_iff)
  also have "card \<dots> = card ?B"
    by (rule card_image) (simp add: inj_on_def)
  finally show ?thesis by (simp add: ddt_count_def)
qed

lemma buildDDT_eq: "buildDifferenceDistributionTable sbox = Inr (ddt_table sbox)"
proof -
  let ?ps = "List.product [0..<256] [0..<(256::nat)]"
  let ?z = "replicate 256 (replicate 256 (0::nat))"
  let ?t = "fold cell_incr (map (ddt_cell sbox) ?ps) ?z"
  have in_range: "\<forall>p \<in> set ?ps. fst (ddt_cell sbox p) < length ?z"
    by (auto simp: ddt_cell_def xor_lt_256)
  have in_range': "\<And>p. p \<in> set ?ps \<Longrightarrow> fst (ddt_cell sbox p) < 256"
    by (auto simp: ddt_cell_def xor_lt_256)
  have "buildDifferenceDistributionTable sbox = Inr ?t"
    unfolding buildDifferenceDistributionTable_def fold_nested_product
    by (rule fold_ddt_step [OF in_range])
  moreover have "?t = ddt_table sbox"
  proof (rule nth_equalityI)
    show "length ?t = length (ddt_table sbox)"
      by (simp add: hist2_length ddt_table_def)
  next
    fix a assume "a < length ?t"
    then have a: "a < 256" by (simp add: hist2_length)
    show "?t ! a = ddt_table sbox ! a"
    proof (rule nth_equalityI)
      show "length (?t ! a) = length (ddt_table sbox ! a)"
        using a by (simp add: hist2_row_length ddt_table_def del: upt_Suc)
    next
      fix b assume "b < length (?t ! a)"
      then have b: "b < 256" using a by (simp add: hist2_row_length)
      have "?t ! a ! b = length (filter (\<lambda>p. p = (a, b)) (map (ddt_cell sbox) ?ps))"
        using a b by (subst hist2_nth) simp_all
      also have "\<dots> = length (filter (\<lambda>p. ddt_cell sbox p = (a, b)) ?ps)"
        by (simp add: filter_map comp_def)
      also have "\<dots> = ddt_count sbox a b"
        by (rule count_pairs [OF a])
      finally show "?t ! a ! b = ddt_table sbox ! a ! b"
        using a b by (simp add: ddt_table_def del: upt_Suc)
    qed
  qed
  ultimately show ?thesis by simp
qed

lemma even_card_involution:
  assumes "finite A" and "\<And>x. x \<in> A \<Longrightarrow> f x \<in> A \<and> f (f x) = x \<and> f x \<noteq> x"
  shows "even (card A)"
  using assms
proof (induction "card A" arbitrary: A rule: less_induct)
  case less
  show ?case
  proof (cases "A = {}")
    case True
    then show ?thesis by simp
  next
    case False
    then obtain x where x: "x \<in> A" by blast
    let ?B = "A - {x, f x}"
    have fx: "f x \<in> A" "f x \<noteq> x" using less.prems(2) [OF x] by simp_all
    have "{x, f x} \<subseteq> A" "card {x, f x} = 2"
      using x fx by auto
    then have cardB: "card A = card ?B + 2"
      using less.prems(1) by (metis card_Diff_subset card_mono finite.emptyI finite.insertI le_add_diff_inverse2)
    have closed: "\<And>y. y \<in> ?B \<Longrightarrow> f y \<in> ?B \<and> f (f y) = y \<and> f y \<noteq> y"
      using less.prems(2) x by (metis Diff_iff insert_iff empty_iff)
    have "even (card ?B)"
      using cardB less.prems(1) closed by (intro less.hyps) simp_all
    then show ?thesis using cardB by simp
  qed
qed

lemma ddt_count_even: "a < 256 \<Longrightarrow> even (ddt_count sbox a b)"
proof (cases "a = 0")
  case True
  have "{x. x < 256 \<and> (sbox ! x) XOR (sbox ! (x XOR 0)) = b} = (if b = 0 then {..<256} else {})"
    by auto
  then show ?thesis using True by (simp add: ddt_count_def)
next
  case False
  assume a: "a < 256"
  let ?A = "{x. x < 256 \<and> (sbox ! x) XOR (sbox ! (x XOR a)) = b}"
  have "even (card ?A)"
  proof (rule even_card_involution [where f = "\<lambda>x. x XOR a"])
    show "finite ?A" by simp
  next
    fix x assume "x \<in> ?A"
    then have x: "x < 256" "(sbox ! x) XOR (sbox ! (x XOR a)) = b" by simp_all
    have inv: "(x XOR a) XOR a = x"
      by (metis xor.assoc xor_self_eq xor.right_neutral)
    have ne: "x XOR a \<noteq> x"
      using False by (metis xor_eq_iff xor_self_eq)
    have "(sbox ! (x XOR a)) XOR (sbox ! ((x XOR a) XOR a)) = (sbox ! (x XOR a)) XOR (sbox ! x)"
      by (simp only: inv)
    also have "\<dots> = (sbox ! x) XOR (sbox ! (x XOR a))"
      by (rule xor.commute)
    finally have "(sbox ! (x XOR a)) XOR (sbox ! ((x XOR a) XOR a)) = b"
      using x(2) by simp
    then show "x XOR a \<in> ?A \<and> (x XOR a) XOR a = x \<and> x XOR a \<noteq> x"
      using a x(1) inv ne by (simp add: xor_lt_256 del: xor.assoc)
  qed
  then show ?thesis by (simp add: ddt_count_def)
qed

lemma ddt_count_row_sum:
  assumes "\<And>x. x < 256 \<Longrightarrow> sbox ! x < 256" and "a < 256"
  shows "(\<Sum>b<256. ddt_count sbox a b) = 256"
proof -
  let ?g = "\<lambda>x. (sbox ! x) XOR (sbox ! (x XOR a))"
  have img: "?g ` {..<256} \<subseteq> {..<256}"
    using assms by (auto simp: xor_lt_256)
  have "(\<Sum>b<256. ddt_count sbox a b) = (\<Sum>b\<in>{..<256}. \<Sum>x\<in>{x \<in> {..<256}. ?g x = b}. 1)"
    by (simp add: ddt_count_def)
  also have "\<dots> = (\<Sum>x\<in>{..<256::nat}. 1)"
    using img by (intro sum.group) simp_all
  finally show ?thesis by simp
qed

lemma ddt_count_0_0: "ddt_count sbox 0 0 = 256"
  by (simp add: ddt_count_def)

lemma sum_list_upt_sum: "sum_list (map f [0..<n]) = (\<Sum>b<n. (f b :: nat))"
  by (simp add: sum_list_sum_nth atLeast0LessThan interv_sum_list_conv_sum_set_nat)

lemma fold_count_all: "fold (\<lambda>x. Suc) xs (n::nat) = n + length xs"
  by (induction xs arbitrary: n) simp_all

lemma lat_count_0_0: "lat_count sbox 0 0 = 256"
  by (simp add: lat_count_def fold_count_all del: upt_Suc)

lemma lat_0_0: "buildLinearApproximationTable sbox ! 0 ! 0 = 128"
  by (simp add: buildLinearApproximationTable_def lat_count_0_0 del: upt_Suc)

lemma is_permutation_nth: "is_permutation sbox \<Longrightarrow> x < 256 \<Longrightarrow> sbox ! x < 256"
  by (metis atLeastLessThan_iff is_permutation_def nth_mem)

lemma byte_array_iff: "is_byte_array xs \<longleftrightarrow> length xs = 256 \<and> set xs \<subseteq> {0..<256}"
  by (auto simp: is_byte_array_def list_all_iff)

lemma is_permutation_byte_array: "is_permutation xs \<Longrightarrow> is_byte_array xs"
  by (simp add: is_permutation_def byte_array_iff)

lemma is_permutation_distinct: "is_permutation xs \<Longrightarrow> distinct xs"
  by (simp add: is_permutation_def card_distinct)

lemma distinct_count_list_1: "distinct xs \<Longrightarrow> x \<in> set xs \<Longrightarrow> count_list xs x = 1"
  by (induction xs) auto

lemma isBijection_iff:
  assumes "is_byte_array xs"
  shows "isBijection xs \<longleftrightarrow> is_permutation xs"
proof
  assume "isBijection xs"
  then have "card (set xs) = card {0..<256::nat}"
    by (simp add: isBijection_def)
  moreover have "set xs \<subseteq> {0..<256}"
    using assms by (simp add: byte_array_iff)
  ultimately have "set xs = {0..<256}"
    by (intro card_subset_eq) simp_all
  then show "is_permutation xs"
    using assms by (simp add: is_permutation_def byte_array_iff)
next
  assume "is_permutation xs"
  then show "isBijection xs"
    by (simp add: is_permutation_def isBijection_def)
qed

lemma isBalanced_iff:
  assumes "is_byte_array xs"
  shows "isBalanced xs \<longleftrightarrow> is_permutation xs"
proof -
  let ?counts = "fold (\<lambda>value counts. counts[value := counts ! value + 1]) xs (replicate 256 (0::nat))"
  have len: "length ?counts = 256"
    by (simp add: hist1_length)
  have nth: "\<And>k. k < 256 \<Longrightarrow> ?counts ! k = count_list xs k"
    by (simp add: hist1_nth)
  have bal: "isBalanced xs \<longleftrightarrow> (\<forall>k<256. count_list xs k = 1)"
    using assms len nth
    by (auto simp: isBalanced_def Let_def list_all_length is_byte_array_def)
  show ?thesis
  proof
    assume "isBalanced xs"
    then have "\<forall>k<256. count_list xs k = 1" using bal by simp
    then have "\<forall>k<256. k \<in> set xs"
      by (metis count_notin zero_neq_one)
    then have "set xs = {0..<256}"
      using assms by (auto simp: byte_array_iff)
    then show "is_permutation xs"
      using assms by (simp add: is_permutation_def byte_array_iff)
  next
    assume p: "is_permutation xs"
    then have "distinct xs" by (rule is_permutation_distinct)
    then have "\<forall>k<256. count_list xs k = 1"
      using p by (simp add: distinct_count_list_1 is_permutation_def)
    then show "isBalanced xs" using bal by simp
  qed
qed

lemma calculateDAP_eq:
  "calculateDAP sbox =
     Inr \<lparr> maxDifferential = dap_maxDiff (ddt_table sbox),
           maxDAP = of_nat (dap_maxDiff (ddt_table sbox)) / 256,
           dap_table = ddt_table sbox \<rparr>"
  by (simp add: calculateDAP_def buildDDT_eq Let_def)

lemma calculateDifferentialUniformity_eq:
  "calculateDifferentialUniformity sbox = Inr (dap_maxDiff (ddt_table sbox))"
  by (simp add: calculateDifferentialUniformity_def calculateDAP_eq)

lemma runFullAnalysis_completed: "\<exists>r. runFullAnalysis sbox = Completed r
   \<and> sboxProperties r = \<lparr> sbox_size = 256, isBalanced_flag = isBalanced sbox, isBijection_flag = isBijection sbox \<rparr>
   \<and> nonlinearity r = calculateNonlinearity sbox
   \<and> sac r = calculateSAC sbox
   \<and> differentialUniformity r = dap_maxDiff (ddt_table sbox)
   \<and> algebraicDegree r = calculateAlgebraicDegree sbox
   \<and> lap r = calculateLAP sbox
   \<and> correlationImmunity r = calculateCorrelationImmunity sbox"
  by (simp add: runFullAnalysis_def calculateDAP_eq Let_def)

lemma dup_nth: "i < 256 \<Longrightarrow> duplicate7_missing42 ! i = (if i = 42 then 7 else i)"
  by (simp add: duplicate7_missing42_def nth_list_update del: upt_Suc)

lemma dup_length: "length duplicate7_missing42 = 256"
  by (simp add: duplicate7_missing42_def)

lemma dup_byte_array: "is_byte_array duplicate7_missing42"
  unfolding is_byte_array_def list_all_length
  using dup_nth by (auto simp: dup_length)

lemma dup_not_permutation: "\<not> is_permutation duplicate7_missing42"
proof
  assume "is_permutation duplicate7_missing42"
  then have "42 \<in> set duplicate7_missing42"
    by (simp add: is_permutation_def)
  then obtain i where "i < 256" "duplicate7_missing42 ! i = 42"
    by (auto simp: in_set_conv_nth dup_length)
  then show False
    by (simp add: dup_nth split: if_splits)
qed

lemma identity_permutation: "is_permutation identity_sbox"
  by (simp add: is_permutation_def identity_sbox_def)

lemma validate_scan_in_range:
  assumes "\<forall>v \<in> set vs. 0 \<le> v \<and> v \<le> 255"
  shows "validate_scan vs seen =
           (if distinct vs \<and> set vs \<inter> set seen = {} then Inr (rev vs @ seen) else Inl NotAPermutation)"
  using assms
proof (induction vs arbitrary: seen)
  case Nil
  then show ?case by simp
next
  case (Cons v vs)
  then show ?case by (auto simp: not_le)
qed

lemma validateSBoxValues_length:
  "length vs \<noteq> 256 \<Longrightarrow> validateSBoxValues vs = Inl InvalidSBoxLength"
  by (simp add: validateSBoxValues_def)

lemma validateSBoxValues_bytes:
  assumes "length vs = 256" and "\<forall>v \<in> set vs. 0 \<le> v \<and> v \<le> 255"
  shows "validateSBoxValues vs = (if distinct vs then Inr () else Inl NotAPermutation)"
proof (cases "distinct vs")
  case False
  then show ?thesis
    using assms by (simp add: validateSBoxValues_def validate_scan_in_range)
next
  case True
  have sub: "set vs \<subseteq> int ` {0..<256}"
  proof
    fix v assume "v \<in> set vs"
    then have "0 \<le> v" "v \<le> 255" using assms(2) by auto
    then have "v = int (nat v)" "nat v < 256" by simp_all
    then show "v \<in> int ` {0..<256}" by (metis atLeastLessThan_iff image_eqI zero_le)
  qed
  have "card (set vs) = 256"
    using True assms(1) by (simp add: distinct_card)
  then have "set vs = int ` {0..<256}"
    using sub by (intro card_subset_eq) (simp_all add: card_image)
  then have "filter (\<lambda>i. i \<notin> set (rev vs @ [])) (map int [0..<256]) = []"
    by (simp add: filter_empty_conv del: upt_Suc)
  then show ?thesis
    using True assms by (simp add: validateSBoxValues_def validate_scan_in_range del: upt_Suc)
qed

lemma runAnalysis_length:
  "length xs \<noteq> 256 \<Longrightarrow> runAnalysis xs = Inl (Inl InvalidSBoxLength)"
  by (simp add: runAnalysis_def new_SBoxAnalyzer_def)

lemma runAnalysis_256:
  assumes "length xs = 256"
  shows "\<exists>r. runAnalysis xs = Inr (r, generateSummary r)
           \<and> isBalanced_flag (sboxProperties r) = isBalanced xs
           \<and> isBijection_flag (sboxProperties r) = isBijection xs"
proof -
  obtain r where "runFullAnalysis xs = Completed r"
    "sboxProperties r = \<lparr> sbox_size = 256, isBalanced_flag = isBalanced xs, isBijection_flag = isBijection xs \<rparr>"
    using runFullAnalysis_completed [of xs] by blast
  then show ?thesis
    using assms by (simp add: runAnalysis_def new_SBoxAnalyzer_def)
qed

section \<open>What the loops compute, and how to evaluate it\<close>

subsection \<open>Tries\<close>

lemma get_map_trie: "get (map_trie f t) x = f (get t x)"
  by (induction t arbitrary: x) simp_all

lemma full_map_trie [simp]: "full n (map_trie f t) = full n t"
  by (induction n t rule: full.induct) simp_all

lemma full_zipt: "full n a \<Longrightarrow> full n b \<Longrightarrow> full n (zipt f a b)"
  by (induction f a b arbitrary: n rule: zipt.induct) (case_tac n; simp)+

lemma get_zipt: "full n a \<Longrightarrow> full n b \<Longrightarrow> get (zipt f a b) x = f (get a x) (get b x)"
proof (induction n arbitrary: a b x)
  case 0
  then show ?case by (cases a; cases b) simp_all
next
  case (Suc n)
  then show ?case by (cases a; cases b) simp_all
qed

lemma length_interleave: "length xs = length ys \<Longrightarrow> length (interleave xs ys) = 2 * length xs"
  by (induction xs ys rule: interleave.induct) simp_all

lemma length_flat: "full n t \<Longrightarrow> length (flat t) = 2 ^ n"
proof (induction n arbitrary: t)
  case 0
  then show ?case by (cases t) simp_all
next
  case (Suc n)
  then show ?case by (cases t) (simp_all add: length_interleave)
qed

lemma nth_interleave:
  "length xs = length ys \<Longrightarrow> k < 2 * length xs \<Longrightarrow>
   interleave xs ys ! k = (if even k then xs ! (k div 2) else ys ! (k div 2))"
proof (induction xs ys arbitrary: k rule: interleave.induct)
  case (1 x xs y ys)
  show ?case
  proof (cases k)
    case 0
    then show ?thesis by simp
  next
    case (Suc k')
    show ?thesis
    proof (cases k')
      case 0
      then show ?thesis using Suc by simp
    next
      case (Suc k'')
      then have "interleave xs ys ! k'' = (if even k'' then xs ! (k'' div 2) else ys ! (k'' div 2))"
        using 1 \<open>k = Suc k'\<close> by simp
      then show ?thesis using Suc \<open>k = Suc k'\<close> by simp
    qed
  qed
qed simp_all

lemma nth_flat: "full n t \<Longrightarrow> x < 2 ^ n \<Longrightarrow> flat t ! x = get t x"
proof (induction n arbitrary: t x)
  case 0
  then show ?case by (cases t) simp_all
next
  case (Suc n)
  then obtain l r where t: "t = Nd l r" "full n l" "full n r"
    by (cases t) simp_all
  have "x div 2 < 2 ^ n" using Suc.prems(2) by simp
  then show ?case
    using t Suc.IH Suc.prems(2) by (simp add: nth_interleave length_flat)
qed

lemma flat_eqI:
  assumes "full n t" and "length xs = 2 ^ n" and "\<And>x. x < 2 ^ n \<Longrightarrow> xs ! x = get t x"
  shows "xs = flat t"
  using assms by (intro nth_equalityI) (simp_all add: length_flat nth_flat)

lemma get_xorperm:
  "full n t \<Longrightarrow> get (xorperm a t) x = get t (x XOR a)"
proof (induction n arbitrary: t a x)
  case 0
  then show ?case by (cases t) simp_all
next
  case (Suc n)
  then obtain l r where t: "t = Nd l r" "full n l" "full n r"
    by (cases t) simp_all
  have d: "(x XOR a) div 2 = (x div 2) XOR (a div 2)"
    by (simp add: xor_nat_unfold [of x a])
  have e: "even (x XOR a) \<longleftrightarrow> (even x \<longleftrightarrow> even a)"
    by (rule even_xor_iff)
  show ?case
    using t Suc.IH by (simp add: d e)
qed

lemma full_xorperm: "full n t \<Longrightarrow> full n (xorperm a t)"
proof (induction n arbitrary: t a)
  case 0
  then show ?case by (cases t) simp_all
next
  case (Suc n)
  then show ?case by (cases t) simp_all
qed

subsection \<open>Hamming weights\<close>

lemma popcount_0 [simp]: "popcount 0 = 0"
  by (simp add: popcount.simps)

lemma popcount_double [simp]: "popcount (2 * n) = popcount n"
  by (subst popcount.simps) simp

lemma popcount_double_Suc [simp]: "popcount (Suc (2 * n)) = Suc (popcount n)"
  by (subst popcount.simps) simp

lemma hammingWeight_loop_popcount: "hammingWeight_loop weight n = weight + popcount n"
proof (induction weight n rule: hammingWeight_loop.induct)
  case (1 weight n)
  show ?case
  proof (cases "n = 0")
    case True
    then show ?thesis by (simp add: hammingWeight_loop.simps)
  next
    case False
    have "hammingWeight_loop weight n = hammingWeight_loop (weight + (n AND 1)) (drop_bit 1 n)"
      using False by (subst hammingWeight_loop.simps) simp
    also have "\<dots> = weight + (n AND 1) + popcount (drop_bit 1 n)"
      using False by (rule 1)
    also have "\<dots> = weight + popcount n"
      using False by (subst (2) popcount.simps) (simp add: and_one_eq drop_bit_eq_div)
    finally show ?thesis .
  qed
qed

lemma hammingWeights_nth: "k < 256 \<Longrightarrow> hammingWeights ! k = popcount k"
  by (simp add: hammingWeights_def precomputeHammingWeights_def hammingWeight_def
      hammingWeight_loop_popcount del: upt_Suc)

lemma and_double: "(2 * x) AND w = 2 * (x AND (w div 2))" for x w :: nat
  by (simp add: and_nat_unfold [of "2 * x" w])

lemma and_double_Suc: "Suc (2 * x) AND w = 2 * (x AND (w div 2)) + w mod 2" for x w :: nat
  by (simp add: and_nat_unfold [of "Suc (2 * x)" w] mod_2_eq_odd)

lemma sgn_of_pc_even: "sgn_of (popcount ((2 * x) AND w)) = sgn_of (popcount (x AND (w div 2)))"
  by (simp add: and_double)

lemma sgn_of_pc_odd:
  "sgn_of (popcount (Suc (2 * x) AND w))
   = (if even w then 1 else - 1) * sgn_of (popcount (x AND (w div 2)))"
proof (cases "even w")
  case True
  then show ?thesis by (simp add: and_double_Suc)
next
  case False
  then have "w mod 2 = 1" by (simp add: mod_2_eq_odd)
  then have "Suc (2 * x) AND w = Suc (2 * (x AND (w div 2)))"
    by (simp add: and_double_Suc)
  then show ?thesis using False by (simp add: sgn_of_def)
qed

lemma sum_even_odd:
  "(\<Sum>x<2 * m. g x) = (\<Sum>x<m. g (2 * x)) + (\<Sum>x<m. (g (Suc (2 * x)) :: int))"
  by (induction m) (simp_all add: algebra_simps)

lemma fwht_correct:
  "full n t \<Longrightarrow>
     full n (fwht t)
     \<and> (\<forall>w. get (fwht t) w = (\<Sum>x\<in>{..<2 ^ n}. sgn_of (popcount (x AND w)) * get t x))"
proof (induction n arbitrary: t)
  case 0
  then show ?case by (cases t) (simp_all add: sgn_of_def)
next
  case (Suc n)
  then obtain l r where t: "t = Nd l r" "full n l" "full n r"
    by (cases t) simp_all
  note L = Suc.IH [OF t(2)] and R = Suc.IH [OF t(3)]
  have fl: "full n (fwht l)" and fr: "full n (fwht r)" using L R by simp_all
  have "full (Suc n) (fwht t)"
    using fl fr by (simp add: t Let_def full_zipt)
  moreover have "get (fwht t) w = (\<Sum>x\<in>{..<2 ^ Suc n}. sgn_of (popcount (x AND w)) * get t x)" for w
  proof -
    let ?A = "\<Sum>x\<in>{..<2 ^ n}. sgn_of (popcount (x AND (w div 2))) * get l x"
    let ?B = "\<Sum>x\<in>{..<2 ^ n}. sgn_of (popcount (x AND (w div 2))) * get r x"
    have "(\<Sum>x\<in>{..<2 ^ Suc n}. sgn_of (popcount (x AND w)) * get t x)
          = (\<Sum>x\<in>{..<2 ^ n}. sgn_of (popcount ((2 * x) AND w)) * get t (2 * x))
            + (\<Sum>x\<in>{..<2 ^ n}. sgn_of (popcount (Suc (2 * x) AND w)) * get t (Suc (2 * x)))"
      using sum_even_odd [where m = "2 ^ n" and g = "\<lambda>x. sgn_of (popcount (x AND w)) * get t x"]
      by (simp add: lessThan_def)
    also have "\<dots> = ?A + (if even w then 1 else - 1) * ?B"
      by (simp add: t sgn_of_pc_even sgn_of_pc_odd sum_distrib_left mult.assoc
          del: mult_minus1 )
    finally have rhs: "(\<Sum>x\<in>{..<2 ^ Suc n}. sgn_of (popcount (x AND w)) * get t x)
          = ?A + (if even w then 1 else - 1) * ?B" .
    have "get (fwht t) w = (if even w then get (fwht l) (w div 2) + get (fwht r) (w div 2)
                            else get (fwht l) (w div 2) - get (fwht r) (w div 2))"
      using fl fr by (simp add: t Let_def get_zipt)
    also have "\<dots> = ?A + (if even w then 1 else - 1) * ?B"
      using L R by simp
    finally show ?thesis using rhs by simp
  qed
  ultimately show ?case by blast
qed

lemma maxi_empty [simp]: "maxi f {} = 0"
  by (simp add: maxi_def)

lemma maxi_Un: "finite A \<Longrightarrow> finite B \<Longrightarrow> maxi f (A \<union> B) = max (maxi f A) (maxi f B)"
proof -
  assume fin: "finite A" "finite B"
  have "insert 0 (f ` (A \<union> B)) = insert 0 (f ` A) \<union> insert 0 (f ` B)"
    by auto
  moreover have "Max (insert 0 (f ` A) \<union> insert 0 (f ` B))
                 = max (Max (insert 0 (f ` A))) (Max (insert 0 (f ` B)))"
    using fin by (intro Max_Un) simp_all
  ultimately show ?thesis
    unfolding maxi_def by (simp only:)
qed

lemma maxi_image: "maxi f (h ` A) = maxi (\<lambda>x. f (h x)) A"
  by (simp add: maxi_def image_image)

lemma maxi_cong: "(\<And>x. x \<in> A \<Longrightarrow> f x = g x) \<Longrightarrow> maxi f A = maxi g A"
  by (simp add: maxi_def cong: image_cong)

lemma maxi_ge: "finite A \<Longrightarrow> x \<in> A \<Longrightarrow> f x \<le> maxi f A"
  by (simp add: maxi_def)

lemma maxi_ge_0: "finite A \<Longrightarrow> 0 \<le> maxi f A"
  by (simp add: maxi_def)

lemma maxi_le_iff: "finite A \<Longrightarrow> maxi f A \<le> b \<longleftrightarrow> 0 \<le> b \<and> (\<forall>x\<in>A. f x \<le> b)"
  by (simp add: maxi_def)

lemma maxi_eqI:
  assumes "finite A" "\<And>x. x \<in> A \<Longrightarrow> f x \<le> b" "0 \<le> b" "b = 0 \<or> (\<exists>x\<in>A. f x = b)"
  shows "maxi f A = b"
  unfolding maxi_def using assms by (intro Max_eqI) auto

lemma fold_max_Max:
  "fold (\<lambda>i m. max m (g i)) xs (a::'a::linorder) = Max (insert a (g ` set xs))"
proof (induction xs arbitrary: a)
  case Nil
  then show ?case by simp
next
  case (Cons x xs)
  have "Max (insert (max a (g x)) (g ` set xs)) = Max (insert a (insert (g x) (g ` set xs)))"
    by (cases "g ` set xs = {}") (simp_all add: max.assoc)
  then show ?case
    using Cons.IH [of "max a (g x)"] by simp
qed

lemma fold_max_0: "fold (\<lambda>i m. max m (g i)) xs (0::'a::{linorder,zero}) = maxi g (set xs)"
  by (simp add: fold_max_Max maxi_def)

lemma lessThan_double: "{..<2 * m} = (\<lambda>x. 2 * x) ` {..<m} \<union> (\<lambda>x. Suc (2 * x)) ` {..<(m::nat)}"
proof (rule set_eqI)
  fix k :: nat
  show "k \<in> {..<2 * m} \<longleftrightarrow> k \<in> (\<lambda>x. 2 * x) ` {..<m} \<union> (\<lambda>x. Suc (2 * x)) ` {..<m}"
  proof
    assume k: "k \<in> {..<2 * m}"
    show "k \<in> (\<lambda>x. 2 * x) ` {..<m} \<union> (\<lambda>x. Suc (2 * x)) ` {..<m}"
    proof (cases "even k")
      case True
      then have "k = 2 * (k div 2)" "k div 2 < m" using k by auto
      then show ?thesis by blast
    next
      case False
      then have "k = Suc (2 * (k div 2))" "k div 2 < m" using k by auto
      then show ?thesis by blast
    qed
  qed auto
qed

lemma from1_double:
  "{1..<2 * m} = (\<lambda>x. 2 * x) ` {1..<m} \<union> (\<lambda>x. Suc (2 * x)) ` {..<(m::nat)}"
proof (rule set_eqI)
  fix k :: nat
  show "k \<in> {1..<2 * m} \<longleftrightarrow> k \<in> (\<lambda>x. 2 * x) ` {1..<m} \<union> (\<lambda>x. Suc (2 * x)) ` {..<m}"
  proof
    assume k: "k \<in> {1..<2 * m}"
    show "k \<in> (\<lambda>x. 2 * x) ` {1..<m} \<union> (\<lambda>x. Suc (2 * x)) ` {..<m}"
    proof (cases "even k")
      case True
      then have "k = 2 * (k div 2)" "k div 2 < m" "1 \<le> k div 2" using k by auto
      then show ?thesis by (metis UnI1 atLeastLessThan_iff imageI)
    next
      case False
      then have "k = Suc (2 * (k div 2))" "k div 2 < m" using k by auto
      then show ?thesis by blast
    qed
  qed auto
qed

lemma maxabs_maxi: "full n t \<Longrightarrow> maxabs t = maxi (\<lambda>x. \<bar>get t x\<bar>) {..<2 ^ n}"
proof (induction n arbitrary: t)
  case 0
  have "(\<lambda>x. c) ` {..<Suc 0} = {c}" for c :: int by auto
  then show ?case using 0 by (cases t) (simp_all add: maxi_def)
next
  case (Suc n)
  then obtain l r where t: "t = Nd l r" "full n l" "full n r"
    by (cases t) simp_all
  have "maxi (\<lambda>x. \<bar>get t x\<bar>) {..<2 ^ Suc n}
        = max (maxi (\<lambda>x. \<bar>get t (2 * x)\<bar>) {..<2 ^ n}) (maxi (\<lambda>x. \<bar>get t (Suc (2 * x))\<bar>) {..<2 ^ n})"
    using lessThan_double [of "2 ^ n"] by (simp add: maxi_Un maxi_image)
  then show ?case
    using t Suc.IH by simp
qed

lemma maxabs0_maxi: "full n t \<Longrightarrow> maxabs0 t = maxi (\<lambda>x. \<bar>get t x\<bar>) {1..<2 ^ n}"
proof (induction n arbitrary: t)
  case 0
  then show ?case by (cases t) simp_all
next
  case (Suc n)
  then obtain l r where t: "t = Nd l r" "full n l" "full n r"
    by (cases t) simp_all
  have "maxi (\<lambda>x. \<bar>get t x\<bar>) {1..<2 ^ Suc n}
        = max (maxi (\<lambda>x. \<bar>get t (2 * x)\<bar>) {1..<2 ^ n}) (maxi (\<lambda>x. \<bar>get t (Suc (2 * x))\<bar>) {..<2 ^ n})"
    using from1_double [of "2 ^ n"] by (simp add: maxi_Un maxi_image)
  then show ?case
    using t Suc.IH maxabs_maxi [OF t(3)] by simp
qed

lemma max_abs_walsh_flat: "full n t \<Longrightarrow> max_abs_walsh (flat t) = maxabs0 t"
proof -
  assume f: "full n t"
  have "max_abs_walsh (flat t) = maxi (\<lambda>i. \<bar>flat t ! i\<bar>) {1..<2 ^ n}"
    by (simp add: max_abs_walsh_def fold_max_0 length_flat [OF f])
  also have "\<dots> = maxi (\<lambda>x. \<bar>get t x\<bar>) {1..<2 ^ n}"
    by (rule maxi_cong) (simp add: nth_flat [OF f])
  finally show ?thesis by (simp add: maxabs0_maxi [OF f])
qed

lemma minus_one_power_xor:
  "(- 1 :: int) ^ (a XOR (p mod 2)) = (- 1) ^ p * (- 1) ^ a" for a p :: nat
proof -
  have "even (a XOR (p mod 2)) \<longleftrightarrow> (even a \<longleftrightarrow> even p)"
    by (simp add: even_xor_iff)
  then show ?thesis
    by (simp add: minus_one_power_iff)
qed

lemma walsh_term_alt:
  "x < 256 \<Longrightarrow> walsh_term tt w x = sgn_of (popcount (x AND w)) * (- 1) ^ (tt ! x)"
  by (simp add: walsh_term_def Let_def hammingWeights_nth and_lt_256 minus_one_power_xor sgn_of_def)

lemma sum_list_upt_int: "sum_list (map f [0..<n]) = (\<Sum>x\<in>{..<n}. (f x :: int))"
  by (simp add: interv_sum_list_conv_sum_set_nat atLeast0LessThan)

lemma walsh_fast:
  assumes "full 8 V" and "\<And>x. x < 256 \<Longrightarrow> get V x = (- 1) ^ (tt ! x)"
  shows "walshHadamardTransform tt = flat (fwht V)"
proof (rule flat_eqI [where n = 8])
  show "full 8 (fwht V)" using fwht_correct [OF assms(1)] by simp
  show "length (walshHadamardTransform tt) = 2 ^ 8" by simp
  fix w :: nat assume w: "w < 2 ^ 8"
  have "walshHadamardTransform tt ! w = (\<Sum>x\<in>{..<256}. walsh_term tt w x)"
    using w by (simp add: walsh_nth sum_list_upt_int del: upt_Suc)
  also have "\<dots> = (\<Sum>x\<in>{..<256}. sgn_of (popcount (x AND w)) * get V x)"
    by (rule sum.cong) (simp_all add: walsh_term_alt assms(2))
  also have "\<dots> = get (fwht V) w"
    using fwht_correct [OF assms(1)] by simp
  finally show "walshHadamardTransform tt ! w = get (fwht V) w" .
qed

lemma getBooleanFunction_nth:
  "x < 256 \<Longrightarrow> getBooleanFunction sbox b ! x = drop_bit b (sbox ! x) AND 1"
  by (simp add: getBooleanFunction_def del: upt_Suc)

lemma walsh_bit_fast:
  assumes "full 8 T" and "flat T = sbox"
  shows "walshHadamardTransform (getBooleanFunction sbox b) = flat (fwht (map_trie (bit_sign b) T))"
proof (rule walsh_fast)
  show "full 8 (map_trie (bit_sign b) T)" using assms(1) by simp
  fix x :: nat assume "x < 256"
  then show "get (map_trie (bit_sign b) T) x = (- 1) ^ (getBooleanFunction sbox b ! x)"
    using nth_flat [OF assms(1), of x] assms(2)
    by (simp add: get_map_trie getBooleanFunction_nth bit_sign_def)
qed

lemma bit_nonlinearity_fast:
  assumes "full 8 T" and "flat T = sbox"
  shows "bit_nonlinearity sbox b = 128 - of_int (maxabs0 (fwht (map_trie (bit_sign b) T))) / 2"
proof -
  have "full 8 (fwht (map_trie (bit_sign b) T))"
    using fwht_correct [of 8 "map_trie (bit_sign b) T"] assms(1) by simp
  then show ?thesis
    by (simp add: bit_nonlinearity_def Let_def nonlinearity_of_def walsh_bit_fast [OF assms]
        max_abs_walsh_flat)
qed

lemma fold_min_with_infinity:
  "fold (\<lambda>b acc. min_with_infinity acc (f b)) xs (Some m) = Some (Min (insert m (f ` set xs)))"
proof (induction xs arbitrary: m)
  case Nil
  then show ?case by simp
next
  case (Cons x xs)
  have "Min (insert (min m (f x)) (f ` set xs)) = Min (insert m (insert (f x) (f ` set xs)))"
    by (cases "f ` set xs = {}") (simp_all add: min.assoc)
  then show ?case
    using Cons.IH [of "min m (f x)"] by (simp add: min_with_infinity_def)
qed

lemma calculateNonlinearity_Min:
  "calculateNonlinearity sbox = Min (bit_nonlinearity sbox ` {..<8})"
proof -
  have "[0..<8] = 0 # [1..<8]" by (simp add: upt_conv_Cons)
  then have "calculateNonlinearity sbox
     = the (fold (\<lambda>b acc. min_with_infinity acc (bit_nonlinearity sbox b)) [1..<8]
              (Some (bit_nonlinearity sbox 0)))"
    by (simp add: calculateNonlinearity_def min_with_infinity_def)
  also have "\<dots> = Min (insert (bit_nonlinearity sbox 0) (bit_nonlinearity sbox ` {1..<8}))"
    by (simp add: fold_min_with_infinity del: upt_Suc)
  also have "insert (bit_nonlinearity sbox 0) (bit_nonlinearity sbox ` {1..<8})
             = bit_nonlinearity sbox ` insert 0 {1..<8}"
    by simp
  also have "insert 0 {1..<8} = {..<8::nat}"
    by auto
  finally show ?thesis .
qed

lemma fold_count_if:
  "fold (\<lambda>x count. if P x then count + 1 else count) xs (n::nat) = n + length (filter P xs)"
  by (induction xs arbitrary: n) simp_all

lemma length_filter_sum: "int (length (filter P xs)) = (\<Sum>x\<leftarrow>xs. if P x then 1 else 0)"
  by (induction xs) simp_all

lemma sgn_of_mult_parity:
  "sgn_of u * sgn_of v = (if u mod 2 = v mod 2 then 1 else - 1)"
  by (cases "even u"; cases "even v") (simp_all add: sgn_of_def minus_one_power_iff mod_2_eq_odd)

lemma lat_count_sum:
  assumes "b < 256"
  shows "2 * int (lat_count sbox a b) - 256
         = (\<Sum>x\<in>{..<256}. sgn_of (popcount (a AND x)) * sgn_of (popcount (b AND (sbox ! x))))"
proof -
  let ?P = "\<lambda>x. popcount (a AND x) mod 2 = popcount (b AND (sbox ! x)) mod 2"
  have "lat_count sbox a b = length (filter ?P [0..<256])"
  proof -
    have conv: "fold (\<lambda>x count.
              (let inputParity = (hammingWeights ! (a AND x)) AND 1;
                   outputParity = (hammingWeights ! (b AND (sbox ! x))) AND 1
               in if inputParity = outputParity then count + 1 else count)) xs n
          = fold (\<lambda>x count. if ?P x then count + 1 else count) xs n"
      if "set xs \<subseteq> {..<256}" for xs and n :: nat
      using that
    proof (induction xs arbitrary: n)
      case Nil
      then show ?case by simp
    next
      case (Cons x xs)
      then have "x < 256" by simp
      then have "a AND x < 256" "b AND (sbox ! x) < 256"
        using assms by (simp_all add: and_lt_256 and.commute [of a x])
      then show ?case
        using Cons by (simp add: hammingWeights_nth Let_def and_one_eq)
    qed
    have "set [0..<256] \<subseteq> {..<256::nat}" by auto
    then have "fold (\<lambda>x count.
              (let inputParity = (hammingWeights ! (a AND x)) AND 1;
                   outputParity = (hammingWeights ! (b AND (sbox ! x))) AND 1
               in if inputParity = outputParity then count + 1 else count)) [0..<256] (0::nat)
          = fold (\<lambda>x count. if ?P x then count + 1 else count) [0..<256] 0"
      by (rule conv)
    then show ?thesis
      unfolding lat_count_def by (simp only: fold_count_if add_0)
  qed
  then have "2 * int (lat_count sbox a b) - 256
             = (\<Sum>x\<leftarrow>[0..<256]. 2 * (if ?P x then 1 else 0) - 1)"
    by (simp add: length_filter_sum sum_list_subtractf sum_list_const_mult sum_list_triv del: upt_Suc)
  also have "\<dots> = (\<Sum>x\<leftarrow>[0..<256]. sgn_of (popcount (a AND x)) * sgn_of (popcount (b AND (sbox ! x))))"
    by (intro arg_cong [where f = sum_list] map_cong refl) (simp add: sgn_of_mult_parity)
  finally show ?thesis
    by (simp add: sum_list_upt_int del: upt_Suc)
qed

lemma lat_nth:
  "a < 256 \<Longrightarrow> b < 256 \<Longrightarrow>
   buildLinearApproximationTable sbox ! a ! b = int (lat_count sbox a b) - 128"
  by (simp add: buildLinearApproximationTable_def del: upt_Suc)

lemma lat_fast:
  assumes "full 8 T" and "flat T = sbox" and "a < 256" and "b < 256"
  shows "2 * (buildLinearApproximationTable sbox ! a ! b) = get (fwht (map_trie (mask_sign b) T)) a"
proof -
  have "2 * (buildLinearApproximationTable sbox ! a ! b) = 2 * int (lat_count sbox a b) - 256"
    using assms by (simp add: lat_nth)
  also have "\<dots> = (\<Sum>x\<in>{..<256}. sgn_of (popcount (x AND a)) * get (map_trie (mask_sign b) T) x)"
    unfolding lat_count_sum [OF assms(4)]
    using nth_flat [OF assms(1)] assms(2)
    by (intro sum.cong refl) (simp add: get_map_trie mask_sign_def and.commute)
  also have "\<dots> = get (fwht (map_trie (mask_sign b) T)) a"
    using fwht_correct [of 8 "map_trie (mask_sign b) T"] assms(1) by simp
  finally show ?thesis .
qed

lemma fold_max_if:
  "fold (\<lambda>p m. if P p then max m (g p) else m) ps a = fold (\<lambda>p m. max m (g p)) (filter P ps) a"
  by (induction ps arbitrary: a) simp_all

lemma lap_maxBias_maxi:
  "lap_maxBias table
   = maxi (\<lambda>(a, b). \<bar>table ! a ! b\<bar>) {(a, b). a < 256 \<and> b < 256 \<and> (a \<noteq> 0 \<or> b \<noteq> 0)}"
proof -
  have "lap_maxBias table
        = fold (\<lambda>(a, b) m. if a \<noteq> 0 \<or> b \<noteq> 0 then max m \<bar>table ! a ! b\<bar> else m)
            (List.product [0..<256] [0..<256]) 0"
    unfolding lap_maxBias_def
    by (rule fold_nested_product [where F = "\<lambda>a b m. if a \<noteq> 0 \<or> b \<noteq> 0 then max m \<bar>table ! a ! b\<bar> else m"])
  also have "\<dots> = fold (\<lambda>p m. if fst p \<noteq> 0 \<or> snd p \<noteq> 0 then max m \<bar>table ! fst p ! snd p\<bar> else m)
            (List.product [0..<256] [0..<256]) 0"
    by (simp add: case_prod_unfold)
  also have "\<dots> = maxi (\<lambda>p. \<bar>table ! fst p ! snd p\<bar>)
       (set (filter (\<lambda>p. fst p \<noteq> 0 \<or> snd p \<noteq> 0) (List.product [0..<256] [0..<256])))"
    by (simp only: fold_max_if fold_max_0)
  also have "set (filter (\<lambda>p. fst p \<noteq> 0 \<or> snd p \<noteq> 0) (List.product [0..<256] [0..<256]))
             = {(a, b). a < 256 \<and> b < 256 \<and> (a \<noteq> 0 \<or> b \<noteq> 0)}"
    by auto
  finally show ?thesis by (simp add: case_prod_unfold)
qed

lemma dap_maxDiff_maxi:
  "dap_maxDiff table = maxi (\<lambda>(i, j). table ! i ! j) {(i, j). 1 \<le> i \<and> i < 256 \<and> j < 256}"
proof -
  have "dap_maxDiff table
        = fold (\<lambda>(i, j) m. max m (table ! i ! j)) (List.product [1..<256] [0..<256]) 0"
    unfolding dap_maxDiff_def
    by (rule fold_nested_product [where F = "\<lambda>i j m. max m (table ! i ! j)"])
  also have "\<dots> = fold (\<lambda>p m. max m (table ! fst p ! snd p)) (List.product [1..<256] [0..<256]) 0"
    by (simp add: case_prod_unfold)
  also have "\<dots> = maxi (\<lambda>p. table ! fst p ! snd p) (set (List.product [1..<256] [0..<256]))"
    by (simp only: fold_max_0)
  also have "set (List.product [1..<256] [0..<256]) = {(i, j). 1 \<le> i \<and> i < 256 \<and> j < (256::nat)}"
    by auto
  finally show ?thesis by (simp add: case_prod_unfold)
qed

lemma finite_pairs_256: "finite {(a, b). a < (256::nat) \<and> b < (256::nat) \<and> Q a b}"
proof (rule finite_subset)
  show "{(a, b). a < 256 \<and> b < 256 \<and> Q a b} \<subseteq> {..<256} \<times> {..<256}" by auto
qed simp

lemma finite_pairs_256': "finite {(i, j). 1 \<le> i \<and> i < (256::nat) \<and> j < (256::nat)}"
proof (rule finite_subset)
  show "{(i, j). 1 \<le> i \<and> i < 256 \<and> j < 256} \<subseteq> {..<256} \<times> {..<(256::nat)}" by auto
qed simp

subsection \<open>Histograms\<close>

lemma full_zeros: "full n (zeros n)"
  by (induction n) simp_all

lemma get_zeros: "get (zeros n) x = 0"
  by (induction n arbitrary: x) simp_all

lemma full_incr: "full n h \<Longrightarrow> full n (incr h v)"
proof (induction n arbitrary: h v)
  case 0
  then show ?case by (cases h) simp_all
next
  case (Suc n)
  then show ?case by (cases h) simp_all
qed

lemma get_incr:
  "full n h \<Longrightarrow> v < 2 ^ n \<Longrightarrow> b < 2 ^ n \<Longrightarrow> get (incr h v) b = get h b + (if b = v then 1 else 0)"
proof (induction n arbitrary: h v b)
  case 0
  then show ?case by (cases h) simp_all
next
  case (Suc n)
  then obtain l r where h: "h = Nd l r" "full n l" "full n r"
    by (cases h) simp_all
  have v: "v div 2 < 2 ^ n" and b: "b div 2 < 2 ^ n"
    using Suc.prems by simp_all
  have eq: "b = v \<longleftrightarrow> (even b \<longleftrightarrow> even v) \<and> b div 2 = v div 2"
    by (metis dvd_mult_div_cancel odd_two_times_div_two_succ)
  show ?case
    using h Suc.IH [OF h(2) v b] Suc.IH [OF h(3) v b] eq by auto
qed

lemma hist_correct:
  "full m t \<Longrightarrow> full n h \<Longrightarrow> (\<And>x. x < 2 ^ m \<Longrightarrow> get t x < 2 ^ n) \<Longrightarrow> b < 2 ^ n \<Longrightarrow>
   full n (hist t h) \<and> get (hist t h) b = get h b + card {x. x < 2 ^ m \<and> get t x = b}"
proof (induction m arbitrary: t h)
  case 0
  then obtain v where t: "t = Lf v" by (cases t) simp_all
  have v: "v < 2 ^ n" using 0(3) [of 0] t by simp
  have "{x. x < 2 ^ 0 \<and> get t x = b} = (if b = v then {0} else {})"
    using t by auto
  then show ?case
    using t 0 v by (simp add: full_incr get_incr)
next
  case (Suc m)
  then obtain l r where t: "t = Nd l r" "full m l" "full m r"
    by (cases t) simp_all
  have lr: "\<And>x. x < 2 ^ m \<Longrightarrow> get l x < 2 ^ n" "\<And>x. x < 2 ^ m \<Longrightarrow> get r x < 2 ^ n"
  proof -
    fix x :: nat assume x: "x < 2 ^ m"
    show "get l x < 2 ^ n" using Suc.prems(3) [of "2 * x"] x t by simp
    show "get r x < 2 ^ n" using Suc.prems(3) [of "Suc (2 * x)"] x t by simp
  qed
  note L = Suc.IH [OF t(2) Suc.prems(2) lr(1) Suc.prems(4)]
  then have fl: "full n (hist l h)" by simp
  note R = Suc.IH [OF t(3) fl lr(2) Suc.prems(4)]
  let ?S = "{x. x < 2 ^ Suc m \<and> get t x = b}"
  let ?A = "{x. x < 2 ^ m \<and> get l x = b}"
  let ?B = "{x. x < 2 ^ m \<and> get r x = b}"
  have "?S = (\<lambda>x. 2 * x) ` ?A \<union> (\<lambda>x. Suc (2 * x)) ` ?B"
  proof (rule set_eqI)
    fix k :: nat
    show "k \<in> ?S \<longleftrightarrow> k \<in> (\<lambda>x. 2 * x) ` ?A \<union> (\<lambda>x. Suc (2 * x)) ` ?B"
    proof
      assume k: "k \<in> ?S"
      show "k \<in> (\<lambda>x. 2 * x) ` ?A \<union> (\<lambda>x. Suc (2 * x)) ` ?B"
      proof (cases "even k")
        case True
        then have "k = 2 * (k div 2)" "k div 2 \<in> ?A" using k t by auto
        then show ?thesis by blast
      next
        case False
        then have "k = Suc (2 * (k div 2))" "k div 2 \<in> ?B" using k t by auto
        then show ?thesis by blast
      qed
    next
      assume "k \<in> (\<lambda>x. 2 * x) ` ?A \<union> (\<lambda>x. Suc (2 * x)) ` ?B"
      then show "k \<in> ?S" using t by auto
    qed
  qed
  moreover have "card ((\<lambda>x. 2 * x) ` ?A \<union> (\<lambda>x. Suc (2 * x)) ` ?B) = card ?A + card ?B"
  proof -
    have "card ((\<lambda>x. 2 * x) ` ?A \<union> (\<lambda>x. Suc (2 * x)) ` ?B)
          = card ((\<lambda>x. 2 * x) ` ?A) + card ((\<lambda>x. Suc (2 * x)) ` ?B)"
      by (intro card_Un_disjoint) (auto, presburger)
    moreover have "card ((\<lambda>x. 2 * x) ` ?A) = card ?A"
      by (intro card_image) (simp add: inj_on_def)
    moreover have "card ((\<lambda>x. Suc (2 * x)) ` ?B) = card ?B"
      by (intro card_image) (simp add: inj_on_def)
    ultimately show ?thesis by simp
  qed
  ultimately have "card ?S = card ?A + card ?B" by simp
  then show ?case
    using L R t by simp
qed

lemma maxnat_maxi: "full n t \<Longrightarrow> maxnat t = maxi (get t) {..<2 ^ n}"
proof (induction n arbitrary: t)
  case 0
  have "(\<lambda>x. c) ` {..<Suc 0} = {c}" for c :: nat by auto
  then show ?case using 0 by (cases t) (simp_all add: maxi_def)
next
  case (Suc n)
  then obtain l r where t: "t = Nd l r" "full n l" "full n r"
    by (cases t) simp_all
  have e: "maxi (\<lambda>x. get t (2 * x)) {..<2 ^ n} = maxi (get l) {..<2 ^ n}"
    by (rule maxi_cong) (simp add: t)
  have o: "maxi (\<lambda>x. get t (Suc (2 * x))) {..<2 ^ n} = maxi (get r) {..<2 ^ n}"
    by (rule maxi_cong) (simp add: t)
  have "maxi (get t) {..<2 ^ Suc n}
        = max (maxi (\<lambda>x. get t (2 * x)) {..<2 ^ n}) (maxi (\<lambda>x. get t (Suc (2 * x))) {..<2 ^ n})"
    using lessThan_double [of "2 ^ n"] by (simp add: maxi_Un maxi_image)
  also have "\<dots> = max (maxnat l) (maxnat r)"
    by (simp only: e o Suc.IH [OF t(2)] Suc.IH [OF t(3)])
  finally have "maxi (get t) {..<2 ^ Suc n} = maxnat t"
    by (simp only: t(1) maxnat.simps)
  then show ?case by simp
qed

lemma maxi_pairs:
  assumes "finite A" "finite B"
  shows "maxi (\<lambda>(i, j). f i j) {(i, j). i \<in> A \<and> j \<in> B} = maxi (\<lambda>i. maxi (f i) B) A"
proof (rule antisym)
  have fin: "finite {(i, j). i \<in> A \<and> j \<in> B}"
    using assms by (rule_tac finite_subset [of _ "A \<times> B"]) auto
  show "maxi (\<lambda>(i, j). f i j) {(i, j). i \<in> A \<and> j \<in> B} \<le> maxi (\<lambda>i. maxi (f i) B) A"
  proof (subst maxi_le_iff [OF fin], intro conjI ballI)
    show "0 \<le> maxi (\<lambda>i. maxi (f i) B) A" using assms by (simp add: maxi_ge_0)
    fix p assume "p \<in> {(i, j). i \<in> A \<and> j \<in> B}"
    then obtain i j where p: "p = (i, j)" "i \<in> A" "j \<in> B" by auto
    have "f i j \<le> maxi (f i) B" using assms p by (simp add: maxi_ge)
    also have "\<dots> \<le> maxi (\<lambda>i. maxi (f i) B) A"
      using maxi_ge [OF assms(1) p(2), of "\<lambda>i. maxi (f i) B"] .
    finally show "(case p of (i, j) \<Rightarrow> f i j) \<le> maxi (\<lambda>i. maxi (f i) B) A" by (simp add: p)
  qed
  show "maxi (\<lambda>i. maxi (f i) B) A \<le> maxi (\<lambda>(i, j). f i j) {(i, j). i \<in> A \<and> j \<in> B}"
  proof (subst maxi_le_iff [OF assms(1)], intro conjI ballI)
    show "0 \<le> maxi (\<lambda>(i, j). f i j) {(i, j). i \<in> A \<and> j \<in> B}" using fin by (simp add: maxi_ge_0)
    fix i assume i: "i \<in> A"
    show "maxi (f i) B \<le> maxi (\<lambda>(i, j). f i j) {(i, j). i \<in> A \<and> j \<in> B}"
    proof (subst maxi_le_iff [OF assms(2)], intro conjI ballI)
      show "0 \<le> maxi (\<lambda>(i, j). f i j) {(i, j). i \<in> A \<and> j \<in> B}" using fin by (simp add: maxi_ge_0)
      fix j assume j: "j \<in> B"
      have "(i, j) \<in> {(i, j). i \<in> A \<and> j \<in> B}" using i j by simp
      from maxi_ge [OF fin this, of "\<lambda>(i, j). f i j"]
      show "f i j \<le> maxi (\<lambda>(i, j). f i j) {(i, j). i \<in> A \<and> j \<in> B}" by simp
    qed
  qed
qed

lemma full_diff_row: "full n T \<Longrightarrow> full n (diff_row T a)"
  by (simp add: diff_row_def full_zipt full_xorperm)

lemma get_diff_row:
  assumes "full 8 T" "flat T = sbox" "x < 256" "a < 256"
  shows "get (diff_row T a) x = (sbox ! x) XOR (sbox ! (x XOR a))"
  using assms nth_flat [OF assms(1), of x] nth_flat [OF assms(1), of "x XOR a"]
  by (simp add: diff_row_def get_zipt [OF assms(1) full_xorperm [OF assms(1)]]
      get_xorperm [OF assms(1)] xor_lt_256)

lemma ddt_count_fast:
  assumes "full 8 T" "flat T = sbox" "is_byte_array sbox" "a < 256" "b < 256"
  shows "ddt_count sbox a b = get (hist (diff_row T a) (zeros 8)) b"
proof -
  have range: "get (diff_row T a) x < 2 ^ 8" if "x < 2 ^ 8" for x
  proof -
    have "x < 256" "x XOR a < 256" using that assms(4) by (simp_all add: xor_lt_256)
    then have "sbox ! x < 256" "sbox ! (x XOR a) < 256"
      using assms(3) by (simp_all add: is_byte_array_def list_all_length)
    then show ?thesis
      using get_diff_row [OF assms(1,2) \<open>x < 256\<close> assms(4)] by (simp add: xor_lt_256)
  qed
  have "get (hist (diff_row T a) (zeros 8)) b
        = get (zeros 8) b + card {x. x < 2 ^ 8 \<and> get (diff_row T a) x = b}"
    using hist_correct [OF full_diff_row [OF assms(1)] full_zeros range, of b] assms(5) by simp
  also have "{x. x < 2 ^ 8 \<and> get (diff_row T a) x = b}
             = {x. x < 256 \<and> (sbox ! x) XOR (sbox ! (x XOR a)) = b}"
    using get_diff_row [OF assms(1,2) _ assms(4)] by auto
  finally show ?thesis by (simp add: ddt_count_def get_zeros)
qed

lemma ddt_table_nth: "a < 256 \<Longrightarrow> b < 256 \<Longrightarrow> ddt_table sbox ! a ! b = ddt_count sbox a b"
  by (simp add: ddt_table_def del: upt_Suc)

lemma dap_maxDiff_fast:
  assumes "full 8 T" "flat T = sbox" "is_byte_array sbox"
  shows "dap_maxDiff (ddt_table sbox)
         = maxi (\<lambda>a. maxnat (hist (diff_row T a) (zeros 8))) {1..<256}"
proof -
  have "dap_maxDiff (ddt_table sbox)
        = maxi (\<lambda>(i, j). ddt_table sbox ! i ! j) {(i, j). i \<in> {1..<256} \<and> j \<in> {..<256}}"
    by (simp add: dap_maxDiff_maxi)
  also have "\<dots> = maxi (\<lambda>i. maxi (\<lambda>j. ddt_table sbox ! i ! j) {..<256}) {1..<256}"
    by (rule maxi_pairs) simp_all
  also have "\<dots> = maxi (\<lambda>a. maxnat (hist (diff_row T a) (zeros 8))) {1..<256}"
  proof (rule maxi_cong)
    fix a :: nat assume "a \<in> {1..<256}"
    then have a: "a < 256" by simp
    have "full 8 (hist (diff_row T a) (zeros 8))"
    proof -
      have "get (diff_row T a) x < 2 ^ 8" if "x < 2 ^ 8" for x
      proof -
        have "x < 256" "x XOR a < 256" using that a by (simp_all add: xor_lt_256)
        then have "sbox ! x < 256" "sbox ! (x XOR a) < 256"
          using assms(3) by (simp_all add: is_byte_array_def list_all_length)
        then show ?thesis
          using get_diff_row [OF assms(1,2) \<open>x < 256\<close> a] by (simp add: xor_lt_256)
      qed
      from hist_correct [OF full_diff_row [OF assms(1)] full_zeros this, of 0]
      show ?thesis by simp
    qed
    then have "maxnat (hist (diff_row T a) (zeros 8))
               = maxi (get (hist (diff_row T a) (zeros 8))) {..<2 ^ 8}"
      by (rule maxnat_maxi)
    also have "\<dots> = maxi (\<lambda>j. ddt_table sbox ! a ! j) {..<256}"
    proof -
      have p: "(2::nat) ^ 8 = 256" by simp
      show ?thesis
        unfolding p by (rule maxi_cong) (simp add: ddt_table_nth a ddt_count_fast [OF assms a])
    qed
    finally show "maxi (\<lambda>j. ddt_table sbox ! a ! j) {..<256} = maxnat (hist (diff_row T a) (zeros 8))"
      by simp
  qed
  finally show ?thesis .
qed

subsection \<open>Avalanche counts\<close>

lemma countp_card: "full n t \<Longrightarrow> countp P t = card {x. x < 2 ^ n \<and> P (get t x)}"
proof (induction n arbitrary: t)
  case 0
  then obtain v where t: "t = Lf v" by (cases t) simp_all
  have "{x. x < 2 ^ 0 \<and> P (get t x)} = (if P v then {0} else {})"
    using t by auto
  then show ?case using t by simp
next
  case (Suc n)
  then obtain l r where t: "t = Nd l r" "full n l" "full n r"
    by (cases t) simp_all
  let ?S = "{x. x < 2 ^ Suc n \<and> P (get t x)}"
  let ?A = "{x. x < 2 ^ n \<and> P (get l x)}"
  let ?B = "{x. x < 2 ^ n \<and> P (get r x)}"
  have "?S = (\<lambda>x. 2 * x) ` ?A \<union> (\<lambda>x. Suc (2 * x)) ` ?B"
  proof (rule set_eqI)
    fix k :: nat
    show "k \<in> ?S \<longleftrightarrow> k \<in> (\<lambda>x. 2 * x) ` ?A \<union> (\<lambda>x. Suc (2 * x)) ` ?B"
    proof
      assume k: "k \<in> ?S"
      show "k \<in> (\<lambda>x. 2 * x) ` ?A \<union> (\<lambda>x. Suc (2 * x)) ` ?B"
      proof (cases "even k")
        case True
        then have "k = 2 * (k div 2)" "k div 2 \<in> ?A" using k t by auto
        then show ?thesis by blast
      next
        case False
        then have "k = Suc (2 * (k div 2))" "k div 2 \<in> ?B" using k t by auto
        then show ?thesis by blast
      qed
    next
      assume "k \<in> (\<lambda>x. 2 * x) ` ?A \<union> (\<lambda>x. Suc (2 * x)) ` ?B"
      then show "k \<in> ?S" using t by auto
    qed
  qed
  moreover have "card ((\<lambda>x. 2 * x) ` ?A \<union> (\<lambda>x. Suc (2 * x)) ` ?B) = card ?A + card ?B"
  proof -
    have "card ((\<lambda>x. 2 * x) ` ?A \<union> (\<lambda>x. Suc (2 * x)) ` ?B)
          = card ((\<lambda>x. 2 * x) ` ?A) + card ((\<lambda>x. Suc (2 * x)) ` ?B)"
      by (intro card_Un_disjoint) (auto, presburger)
    moreover have "card ((\<lambda>x. 2 * x) ` ?A) = card ?A"
      by (intro card_image) (simp add: inj_on_def)
    moreover have "card ((\<lambda>x. Suc (2 * x)) ` ?B) = card ?B"
      by (intro card_image) (simp add: inj_on_def)
    ultimately show ?thesis by simp
  qed
  ultimately show ?case
    using t Suc.IH by simp
qed

lemma sac_flipCount_fast:
  assumes "full 8 T" "flat T = sbox" "i < 8"
  shows "sac_flipCount sbox i j = countp (\<lambda>c. c) (zipt (flips j) T (xorperm (2 ^ i) T))"
proof -
  have lt: "x XOR 2 ^ i < 256" if "x < 256" for x :: nat
  proof -
    have "(2::nat) ^ i < 2 ^ 8" using assms(3) by (intro power_strict_increasing) simp_all
    then show ?thesis using that by (simp add: xor_lt_256)
  qed
  have "sac_flipCount sbox i j
        = length (filter (\<lambda>x. flips j (sbox ! x) (sbox ! (x XOR 2 ^ i))) [0..<256])"
    unfolding sac_flipCount_def Let_def flips_def
    by (simp only: fold_count_if push_bit_of_1 add_0)
  also have "\<dots> = card ({x. flips j (sbox ! x) (sbox ! (x XOR 2 ^ i))} \<inter> set [0..<256])"
    by (rule distinct_length_filter) simp
  also have "{x. flips j (sbox ! x) (sbox ! (x XOR 2 ^ i))} \<inter> set [0..<256]
             = {x. x < 256 \<and> flips j (sbox ! x) (sbox ! (x XOR 2 ^ i))}"
    by auto
  also have "{x. x < 256 \<and> flips j (sbox ! x) (sbox ! (x XOR 2 ^ i))}
             = {x. x < 2 ^ 8 \<and> get (zipt (flips j) T (xorperm (2 ^ i) T)) x}"
    using nth_flat [OF assms(1)] assms(2) lt
    by (auto simp: get_zipt [OF assms(1) full_xorperm [OF assms(1)]] get_xorperm [OF assms(1)])
  also have "card \<dots> = countp (\<lambda>c. c) (zipt (flips j) T (xorperm (2 ^ i) T))"
    using countp_card [OF full_zipt [OF assms(1) full_xorperm [OF assms(1)]], of "\<lambda>c. c" "flips j" "2 ^ i"]
    by simp
  finally show ?thesis .
qed

subsection \<open>The M\"obius transform\<close>

lemma computeANF_passes: "computeANF truthTable = fold anf_pass [0..<8] truthTable"
  by (simp only: computeANF_def anf_pass_def [abs_def])

lemma test_bit_iff: "drop_bit i m AND 1 \<noteq> 0 \<longleftrightarrow> bit m i" for m :: nat
  by (simp add: and_one_eq bit_iff_odd_drop_bit mod_2_eq_odd)

lemma xor_pow2_lt_256: "i < 8 \<Longrightarrow> m < 256 \<Longrightarrow> m XOR 2 ^ i < (256::nat)"
proof -
  assume "i < 8" "m < 256"
  then have "(2::nat) ^ i < 2 ^ 8" by (intro power_strict_increasing) simp_all
  then show ?thesis using \<open>m < 256\<close> by (simp add: xor_lt_256)
qed

lemma anf_pass_steps: "anf_pass i anf = fold (anf_step i) [0..<256] anf"
proof -
  have "(\<lambda>mask anf.
             if drop_bit i mask AND 1 \<noteq> 0
             then anf[mask := (anf ! mask) XOR (anf ! (mask XOR push_bit i 1))]
             else anf) = anf_step i"
    by (intro ext) (simp only: anf_step_def test_bit_iff push_bit_of_1)
  then show ?thesis by (simp only: anf_pass_def)
qed

lemma anf_pass_prefix:
  assumes "length anf = 256" "i < 8" "k \<le> 256"
  shows "fold (anf_step i) [0..<k] anf
         = map (\<lambda>m. if m < k \<and> bit m i then (anf ! m) XOR (anf ! (m XOR 2 ^ i)) else anf ! m) [0..<256]"
  using assms(3)
proof (induction k)
  case 0
  show ?case
    using assms(1) by (intro nth_equalityI) (simp_all del: upt_Suc)
next
  case (Suc k)
  let ?st = "map (\<lambda>m. if m < k \<and> bit m i then (anf ! m) XOR (anf ! (m XOR 2 ^ i)) else anf ! m) [0..<256]"
  have k: "k < 256" using Suc.prems by simp
  have IH: "fold (anf_step i) [0..<k] anf = ?st"
    using Suc by simp
  have stk: "?st ! k = anf ! k"
    using k by (simp del: upt_Suc)
  have stx: "?st ! (k XOR 2 ^ i) = anf ! (k XOR 2 ^ i)" if "bit k i"
  proof -
    have "\<not> bit (k XOR 2 ^ i) i"
      using that by (simp add: bit_xor_iff bit_exp_iff)
    then show ?thesis
      using xor_pow2_lt_256 [OF assms(2) k] by (simp del: upt_Suc)
  qed
  have step: "fold (anf_step i) [0..<Suc k] anf = anf_step i k ?st"
    by (simp only: upt_Suc_append [OF le0] fold_append o_apply IH fold.simps id_apply)
  show ?case
  proof (cases "bit k i")
    case True
    have "anf_step i k ?st = ?st[k := (anf ! k) XOR (anf ! (k XOR 2 ^ i))]"
      using True stk stx by (simp only: anf_step_def if_True)
    also have "\<dots> = map (\<lambda>m. if m < Suc k \<and> bit m i then (anf ! m) XOR (anf ! (m XOR 2 ^ i)) else anf ! m) [0..<256]"
    proof (rule nth_equalityI)
      show "length (?st[k := (anf ! k) XOR (anf ! (k XOR 2 ^ i))])
            = length (map (\<lambda>m. if m < Suc k \<and> bit m i then (anf ! m) XOR (anf ! (m XOR 2 ^ i)) else anf ! m) [0..<256])"
        by simp
    next
      fix m assume "m < length (?st[k := (anf ! k) XOR (anf ! (k XOR 2 ^ i))])"
      then have m: "m < 256" by simp
      show "?st[k := (anf ! k) XOR (anf ! (k XOR 2 ^ i))] ! m
            = map (\<lambda>m. if m < Suc k \<and> bit m i then (anf ! m) XOR (anf ! (m XOR 2 ^ i)) else anf ! m) [0..<256] ! m"
      proof (cases "m = k")
        case True
        then show ?thesis
          using k \<open>bit k i\<close> by (simp add: nth_list_update del: upt_Suc)
      next
        case False
        then show ?thesis
          using m by (auto simp add: nth_list_update less_Suc_eq simp del: upt_Suc)
      qed
    qed
    finally show ?thesis using step by simp
  next
    case False
    have "anf_step i k ?st = ?st"
      using False by (simp only: anf_step_def if_False)
    also have "\<dots> = map (\<lambda>m. if m < Suc k \<and> bit m i then (anf ! m) XOR (anf ! (m XOR 2 ^ i)) else anf ! m) [0..<256]"
      using False by (intro nth_equalityI) (auto simp add: less_Suc_eq simp del: upt_Suc)
    finally show ?thesis using step by simp
  qed
qed

lemma anf_pass_nth:
  assumes "length anf = 256" "i < 8" "m < 256"
  shows "anf_pass i anf ! m = (if bit m i then (anf ! m) XOR (anf ! (m XOR 2 ^ i)) else anf ! m)"
  using anf_pass_prefix [OF assms(1,2), of 256] assms(3)
  by (simp add: anf_pass_steps del: upt_Suc)

lemma length_anf_pass: "length anf = 256 \<Longrightarrow> i < 8 \<Longrightarrow> length (anf_pass i anf) = 256"
  using anf_pass_prefix [of anf i 256] by (simp add: anf_pass_steps del: upt_Suc)

lemma xor_div2: "(x XOR a) div 2 = (x div 2) XOR (a div 2)" for x a :: nat
  by (simp add: xor_nat_unfold [of x a])

lemma full_mpass: "full n t \<Longrightarrow> full n (mpass i t)"
proof (induction i t arbitrary: n rule: mpass.induct)
  case (1 i v)
  then show ?case by simp
next
  case (2 l r)
  then show ?case by (cases n) (simp_all add: full_zipt)
next
  case (3 i l r)
  then show ?case by (cases n) simp_all
qed

lemma get_mpass:
  "full n t \<Longrightarrow> i < n \<Longrightarrow>
   get (mpass i t) m = (if bit m i then (get t m) XOR (get t (m XOR 2 ^ i)) else get t m)"
proof (induction i arbitrary: n t m)
  case 0
  then obtain n' l r where t: "n = Suc n'" "t = Nd l r" "full n' l" "full n' r"
    by (cases n; cases t) simp_all
  have "(m XOR 1) div 2 = (m div 2) XOR (1 div 2)"
    by (rule xor_div2)
  then have "odd m \<Longrightarrow> (m XOR 1) div 2 = m div 2 \<and> even (m XOR 1)"
    by (simp add: even_xor_iff)
  then show ?case
    using t by (simp add: get_zipt [OF t(4) t(3)] bit_0)
next
  case (Suc i)
  then obtain n' l r where t: "n = Suc n'" "t = Nd l r" "full n' l" "full n' r"
    by (cases n; cases t) simp_all
  have i: "i < n'" using Suc.prems t by simp
  have d: "(m XOR 2 ^ Suc i) div 2 = (m div 2) XOR 2 ^ i"
    by (simp add: xor_div2)
  have e: "even (m XOR 2 ^ Suc i) \<longleftrightarrow> even m"
    by (simp add: even_xor_iff)
  show ?case
    using t Suc.IH [OF t(3) i] Suc.IH [OF t(4) i]
    by (simp add: bit_Suc d e del: power_Suc)
qed

lemma flat_mpass:
  assumes "full 8 T" "i < 8"
  shows "flat (mpass i T) = anf_pass i (flat T)"
proof (rule sym, rule flat_eqI [where n = 8])
  show "full 8 (mpass i T)" using assms(1) by (rule full_mpass)
  show "length (anf_pass i (flat T)) = 2 ^ 8"
    using assms by (simp add: length_anf_pass length_flat)
  fix m :: nat assume m: "m < 2 ^ 8"
  then have m': "m < 256" "m XOR 2 ^ i < 2 ^ 8"
    using xor_pow2_lt_256 [OF assms(2), of m] by simp_all
  show "anf_pass i (flat T) ! m = get (mpass i T) m"
    using m' nth_flat [OF assms(1) m] nth_flat [OF assms(1) m'(2)]
    by (simp add: anf_pass_nth length_flat [OF assms(1)] assms(2) get_mpass [OF assms])
qed

lemma computeANF_fast:
  assumes "full 8 T"
  shows "computeANF (flat T) = flat (mobius T)" and "full 8 (mobius T)"
proof -
  have u: "[0..<8] = [0, 1, 2, 3, 4, 5, 6, 7]"
    by (simp add: upt_rec_numeral upt_conv_Cons)
  show "full 8 (mobius T)"
    unfolding mobius_def using assms by (intro full_mpass)
  show "computeANF (flat T) = flat (mobius T)"
    unfolding computeANF_passes u mobius_def
    using assms by (simp add: flat_mpass full_mpass)
qed

lemma fold_cong_set:
  "(\<And>x s. x \<in> set xs \<Longrightarrow> f x s = g x s) \<Longrightarrow> fold f xs a = fold g xs a"
  by (induction xs arbitrary: a) simp_all

lemma degree_maxi:
  "calculateBooleanFunctionDegree tt
   = maxi popcount {m. m < 256 \<and> computeANF tt ! m = 1}"
proof -
  let ?anf = "computeANF tt"
  have "calculateBooleanFunctionDegree tt
        = fold (\<lambda>trm maxDegree. if ?anf ! trm = 1 then max maxDegree (hammingWeights ! trm) else maxDegree)
            [0..<256] 0"
    by (simp only: calculateBooleanFunctionDegree_def Let_def)
  also have "\<dots> = fold (\<lambda>trm maxDegree. if ?anf ! trm = 1 then max maxDegree (popcount trm) else maxDegree)
            [0..<256] 0"
    by (rule fold_cong_set) (simp add: hammingWeights_nth)
  also have "\<dots> = maxi popcount (set (filter (\<lambda>m. ?anf ! m = 1) [0..<256]))"
    by (simp only: fold_max_if fold_max_0)
  also have "set (filter (\<lambda>m. ?anf ! m = 1) [0..<256]) = {m. m < 256 \<and> ?anf ! m = 1}"
    by auto
  finally show ?thesis .
qed

lemma degt_maxi:
  "full n t \<Longrightarrow> degt t k = maxi (\<lambda>m. k + popcount m) {m. m < 2 ^ n \<and> get t m = 1}"
proof (induction n arbitrary: t k)
  case 0
  then obtain v where t: "t = Lf v" by (cases t) simp_all
  have "{m. m < 2 ^ 0 \<and> get t m = 1} = (if v = 1 then {0} else {})"
    using t by auto
  then show ?case using t by (simp add: maxi_def)
next
  case (Suc n)
  then obtain l r where t: "t = Nd l r" "full n l" "full n r"
    by (cases t) simp_all
  let ?S = "{m. m < 2 ^ Suc n \<and> get t m = 1}"
  let ?A = "{m. m < 2 ^ n \<and> get l m = 1}"
  let ?B = "{m. m < 2 ^ n \<and> get r m = 1}"
  have S: "?S = (\<lambda>x. 2 * x) ` ?A \<union> (\<lambda>x. Suc (2 * x)) ` ?B"
  proof (rule set_eqI)
    fix j :: nat
    show "j \<in> ?S \<longleftrightarrow> j \<in> (\<lambda>x. 2 * x) ` ?A \<union> (\<lambda>x. Suc (2 * x)) ` ?B"
    proof
      assume j: "j \<in> ?S"
      show "j \<in> (\<lambda>x. 2 * x) ` ?A \<union> (\<lambda>x. Suc (2 * x)) ` ?B"
      proof (cases "even j")
        case True
        then have "j = 2 * (j div 2)" "j div 2 \<in> ?A" using j t by auto
        then show ?thesis by blast
      next
        case False
        then have "j = Suc (2 * (j div 2))" "j div 2 \<in> ?B" using j t by auto
        then show ?thesis by blast
      qed
    next
      assume "j \<in> (\<lambda>x. 2 * x) ` ?A \<union> (\<lambda>x. Suc (2 * x)) ` ?B"
      then show "j \<in> ?S" using t by auto
    qed
  qed
  have "maxi (\<lambda>m. k + popcount m) ?S
        = max (maxi (\<lambda>x. k + popcount (2 * x)) ?A) (maxi (\<lambda>x. k + popcount (Suc (2 * x))) ?B)"
    unfolding S by (simp add: maxi_Un maxi_image)
  also have "\<dots> = max (maxi (\<lambda>x. k + popcount x) ?A) (maxi (\<lambda>x. Suc k + popcount x) ?B)"
    by simp
  also have "\<dots> = degt t k"
    using Suc.IH [OF t(2), of k] Suc.IH [OF t(3), of "Suc k"] by (simp add: t)
  finally show ?case by simp
qed

lemma getBooleanFunction_flat:
  assumes "full 8 T" "flat T = sbox"
  shows "getBooleanFunction sbox b = flat (map_trie (bit_of b) T)"
proof (rule flat_eqI [where n = 8])
  show "full 8 (map_trie (bit_of b) T)" using assms(1) by simp
  show "length (getBooleanFunction sbox b) = 2 ^ 8" by (simp add: getBooleanFunction_def)
  fix x :: nat assume "x < 2 ^ 8"
  then show "getBooleanFunction sbox b ! x = get (map_trie (bit_of b) T) x"
    using nth_flat [OF assms(1), of x] assms(2)
    by (simp add: getBooleanFunction_nth get_map_trie bit_of_def)
qed

lemma degree_fast:
  assumes "full 8 T" "flat T = sbox"
  shows "calculateBooleanFunctionDegree (getBooleanFunction sbox b)
         = degt (mobius (map_trie (bit_of b) T)) 0"
proof -
  let ?V = "map_trie (bit_of b) T"
  have V: "full 8 ?V" using assms(1) by simp
  have "calculateBooleanFunctionDegree (getBooleanFunction sbox b)
        = maxi popcount {m. m < 256 \<and> flat (mobius ?V) ! m = 1}"
    by (simp only: degree_maxi getBooleanFunction_flat [OF assms] computeANF_fast(1) [OF V])
  also have "{m. m < 256 \<and> flat (mobius ?V) ! m = 1} = {m. m < 2 ^ 8 \<and> get (mobius ?V) m = 1}"
    using nth_flat [OF computeANF_fast(2) [OF V]] by auto
  also have "maxi popcount \<dots> = degt (mobius ?V) 0"
    using degt_maxi [OF computeANF_fast(2) [OF V], of 0] by simp
  finally show ?thesis .
qed

lemma calculateAlgebraicDegree_maxi:
  "calculateAlgebraicDegree sbox
   = maxi (\<lambda>b. calculateBooleanFunctionDegree (getBooleanFunction sbox b)) {..<8}"
proof -
  have "set [0..<8] = {..<8::nat}" by auto
  then show ?thesis
    by (simp only: calculateAlgebraicDegree_def fold_max_0)
qed

subsection \<open>Correlation immunity\<close>

lemma hasZeroWalsh_iff:
  "hasZeroWalsh walsh weight \<longleftrightarrow> (\<exists>m<256. popcount m = weight \<and> walsh ! m = 0)"
proof -
  have "hasZeroWalsh walsh weight \<longleftrightarrow> (\<exists>m\<in>set [0..<256]. hammingWeights ! m = weight \<and> walsh ! m = 0)"
    by (simp only: hasZeroWalsh_def list_ex_iff)
  also have "\<dots> \<longleftrightarrow> (\<exists>m<256. popcount m = weight \<and> walsh ! m = 0)"
    by (auto simp: hammingWeights_nth)
  finally show ?thesis .
qed

lemma ci_loop_upt:
  assumes "1 \<le> j" "j \<le> 9"
  shows "\<exists>r. ci_loop walsh [j..<9] (j - 1) = r \<and> j - 1 \<le> r \<and> r \<le> 8
             \<and> (\<forall>i. j \<le> i \<and> i \<le> r \<longrightarrow> hasZeroWalsh walsh i)
             \<and> (r < 8 \<longrightarrow> \<not> hasZeroWalsh walsh (Suc r))"
  using assms
proof (induction "9 - j" arbitrary: j)
  case 0
  then have "j = 9" by simp
  then show ?case by auto
next
  case (Suc d)
  then have j: "j < 9" by simp
  then have u: "[j..<9] = j # [Suc j..<9]" by (simp add: upt_conv_Cons)
  show ?case
  proof (cases "hasZeroWalsh walsh j")
    case False
    have "ci_loop walsh [j..<9] (j - 1) = j - 1"
      using False by (simp only: u ci_loop.simps if_False)
    moreover have "Suc (j - 1) = j" using Suc.prems by simp
    ultimately show ?thesis
      using False j by auto
  next
    case True
    have "d = 9 - Suc j" using Suc.hyps(2) by simp
    from Suc.hyps(1) [OF this] j
    obtain r where r: "ci_loop walsh [Suc j..<9] j = r" "j \<le> r" "r \<le> 8"
        "\<forall>i. Suc j \<le> i \<and> i \<le> r \<longrightarrow> hasZeroWalsh walsh i"
        "r < 8 \<longrightarrow> \<not> hasZeroWalsh walsh (Suc r)"
      by auto
    have "\<forall>i. j \<le> i \<and> i \<le> r \<longrightarrow> hasZeroWalsh walsh i"
      using r(4) True by (metis Suc_leI le_neq_implies_less)
    moreover have "ci_loop walsh [j..<9] (j - 1) = r"
      using True r(1) by (simp only: u ci_loop.simps if_True)
    ultimately show ?thesis
      using r by auto
  qed
qed

lemma bit_ci_exists: "bit_correlation_immunity walsh = ci_exists walsh"
proof -
  let ?P = "\<lambda>j. \<exists>m<256. popcount m = j \<and> walsh ! m = 0"
  let ?K = "{k. k \<le> 8 \<and> (\<forall>j. 1 \<le> j \<and> j \<le> k \<longrightarrow> ?P j)}"
  obtain r where r: "ci_loop walsh [1..<9] 0 = r" "r \<le> 8"
      "\<forall>i. 1 \<le> i \<and> i \<le> r \<longrightarrow> ?P i" "r < 8 \<longrightarrow> \<not> ?P (Suc r)"
    using ci_loop_upt [of 1 walsh] by (auto simp: hasZeroWalsh_iff)
  have "Max ?K = r"
  proof (rule Max_eqI)
    show "finite ?K" by simp
    show "r \<in> ?K" using r by simp
    fix k assume k: "k \<in> ?K"
    show "k \<le> r"
    proof (rule ccontr)
      assume "\<not> k \<le> r"
      then have "Suc r \<le> k" "r < 8" using k by auto
      then have "?P (Suc r)" using k by auto
      then show False using r(4) \<open>r < 8\<close> by simp
    qed
  qed
  moreover have "bit_correlation_immunity walsh = r"
    using r(1) by (simp add: bit_correlation_immunity_def)
  ultimately show ?thesis by (simp add: ci_exists_def)
qed

lemma calculateCorrelationImmunity_maxi:
  "calculateCorrelationImmunity sbox
   = maxi (\<lambda>b. ci_exists (walshHadamardTransform (getBooleanFunction sbox b))) {..<8}"
proof -
  have "set [0..<8] = {..<8::nat}" by auto
  then show ?thesis
    by (simp only: calculateCorrelationImmunity_def fold_max_0 bit_ci_exists)
qed

subsection \<open>Range of the Walsh spectrum\<close>

text \<open>
  C8. For every S-box (permutation or not), every output bit \<open>i\<close> and every mask
  \<open>w < 256\<close>, zero or not, the entry \<open>W_i[w]\<close> that \<^verbatim>\<open>walshHadamardTransform\<close> computes from
  the truth table of \<^verbatim>\<open>getBooleanFunction\<close> is an even integer between \<open>-256\<close> and \<open>256\<close>.
\<close>

theorem walsh_spectrum_even_in_range:
  assumes "w < 256"
  shows "even (walshHadamardTransform (getBooleanFunction sbox i) ! w)
       \<and> - 256 \<le> walshHadamardTransform (getBooleanFunction sbox i) ! w
       \<and> walshHadamardTransform (getBooleanFunction sbox i) ! w \<le> 256"
  using walsh_even [OF assms, of "getBooleanFunction sbox i"]
    walsh_abs_le [OF assms, of "getBooleanFunction sbox i"]
  by (simp add: abs_le_iff)

theorem walsh_spectrum_even_in_range_witness:
  "(5::nat) < 256
   \<and> even (walshHadamardTransform (getBooleanFunction [0..<256] 3) ! 5)
   \<and> - 256 \<le> walshHadamardTransform (getBooleanFunction [0..<256] 3) ! 5
   \<and> walshHadamardTransform (getBooleanFunction [0..<256] 3) ! 5 \<le> 256"
  using walsh_spectrum_even_in_range [of 5 "[0..<256]" 3] by simp

subsection \<open>Invariants of the difference and linear approximation tables\<close>

text \<open>
  C7. For every permutation of 0..255 the difference distribution table is built without
  an exception, each of its entries \<open>DDT[\<alpha>][\<beta>]\<close> is even, each row sums to 256,
  \<open>DDT[0][0] = 256\<close>, and \<open>LAT[0][0] = 128\<close>.
\<close>

theorem ddt_lat_invariants:
  assumes "is_permutation sbox"
  shows "\<exists>ddt. buildDifferenceDistributionTable sbox = Inr ddt
           \<and> (\<forall>\<alpha><256. \<forall>\<beta><256. even (ddt ! \<alpha> ! \<beta>))
           \<and> (\<forall>\<alpha><256. sum_list (ddt ! \<alpha>) = 256)
           \<and> ddt ! 0 ! 0 = 256
           \<and> buildLinearApproximationTable sbox ! 0 ! 0 = 128"
proof -
  have nth: "\<And>a b. a < 256 \<Longrightarrow> b < 256 \<Longrightarrow> ddt_table sbox ! a ! b = ddt_count sbox a b"
    by (simp add: ddt_table_def del: upt_Suc)
  have row: "\<And>a. a < 256 \<Longrightarrow> sum_list (ddt_table sbox ! a) = (\<Sum>b<256. ddt_count sbox a b)"
    by (simp add: ddt_table_def sum_list_upt_sum del: upt_Suc)
  have "\<forall>\<alpha><256. \<forall>\<beta><256. even (ddt_table sbox ! \<alpha> ! \<beta>)"
    by (simp add: nth ddt_count_even)
  moreover have "\<forall>\<alpha><256. sum_list (ddt_table sbox ! \<alpha>) = 256"
    using assms by (simp add: row ddt_count_row_sum is_permutation_nth)
  moreover have "ddt_table sbox ! 0 ! 0 = 256"
    by (simp add: nth ddt_count_0_0)
  ultimately show ?thesis
    using buildDDT_eq [of sbox] lat_0_0 [of sbox] by blast
qed

theorem ddt_lat_invariants_witness:
  "is_permutation identity_sbox
   \<and> (\<exists>ddt. buildDifferenceDistributionTable identity_sbox = Inr ddt
           \<and> (\<forall>\<alpha><256. \<forall>\<beta><256. even (ddt ! \<alpha> ! \<beta>))
           \<and> (\<forall>\<alpha><256. sum_list (ddt ! \<alpha>) = 256)
           \<and> ddt ! 0 ! 0 = 256
           \<and> buildLinearApproximationTable identity_sbox ! 0 ! 0 = 128)"
  using ddt_lat_invariants [OF identity_permutation] identity_permutation by simp

subsection \<open>Arrays of bytes that are not permutations\<close>

text \<open>
  C10. For every array of 256 integers in 0..255, permutation or not, the constructor
  succeeds (it checks the length only) and the full analysis completes with a report,
  no evaluator throwing; when the array is not a permutation, the report's flags
  \<^verbatim>\<open>isBalanced\<close> and \<^verbatim>\<open>isBijection\<close> are both false.
\<close>

theorem analysis_total_on_byte_arrays:
  assumes "is_byte_array xs"
  shows "new_SBoxAnalyzer xs = Inr xs
       \<and> (\<exists>r. runFullAnalysis xs = Completed r
              \<and> (\<not> is_permutation xs \<longrightarrow>
                   \<not> isBalanced_flag (sboxProperties r) \<and> \<not> isBijection_flag (sboxProperties r)))"
proof -
  obtain r where r: "runFullAnalysis xs = Completed r"
    "sboxProperties r = \<lparr> sbox_size = 256, isBalanced_flag = isBalanced xs, isBijection_flag = isBijection xs \<rparr>"
    using runFullAnalysis_completed [of xs] by blast
  have "new_SBoxAnalyzer xs = Inr xs"
    using assms by (simp add: new_SBoxAnalyzer_def is_byte_array_def)
  moreover have "\<not> is_permutation xs \<longrightarrow>
      \<not> isBalanced_flag (sboxProperties r) \<and> \<not> isBijection_flag (sboxProperties r)"
    using r(2) isBalanced_iff [OF assms] isBijection_iff [OF assms] by simp
  ultimately show ?thesis using r(1) by blast
qed

theorem analysis_total_on_byte_arrays_witness:
  "is_byte_array duplicate7_missing42 \<and> \<not> is_permutation duplicate7_missing42
   \<and> new_SBoxAnalyzer duplicate7_missing42 = Inr duplicate7_missing42
   \<and> (\<exists>r. runFullAnalysis duplicate7_missing42 = Completed r
          \<and> \<not> isBalanced_flag (sboxProperties r) \<and> \<not> isBijection_flag (sboxProperties r))"
  using analysis_total_on_byte_arrays [OF dup_byte_array] dup_byte_array dup_not_permutation
  by simp

subsection \<open>Rejection of invalid input\<close>

text \<open>
  C2, as claimed, fails: the sequence of length 256 with 7 twice and 42 missing is not a
  permutation, yet \<^verbatim>\<open>runAnalysis\<close> delivers a complete report and a summary for it, not a
  \<open>NotAPermutation\<close> error.
\<close>

theorem non_permutation_is_analysed:
  "length duplicate7_missing42 = 256
   \<and> \<not> is_permutation duplicate7_missing42
   \<and> (\<exists>r. runAnalysis duplicate7_missing42 = Inr (r, generateSummary r))"
  using runAnalysis_256 [OF dup_length] dup_length dup_not_permutation by blast

text \<open>
  C2, amended. A sequence whose length is not 256 fails with \<open>InvalidSBoxLength\<close>, both in
  the analysis (the constructor throws, no report is delivered) and in
  \<^verbatim>\<open>validateSBoxValues\<close>. A sequence of 256 byte values with a duplicate is rejected with
  \<open>NotAPermutation\<close> by \<^verbatim>\<open>validateSBoxValues\<close>, the check of the upload path; the analysis
  itself does not check for permutations: it reports on such a sequence with both flags
  false.
\<close>

theorem invalid_input_rejection:
  "(length xs \<noteq> 256 \<longrightarrow> runAnalysis xs = Inl (Inl InvalidSBoxLength))
   \<and> (length vs \<noteq> 256 \<longrightarrow> validateSBoxValues vs = Inl InvalidSBoxLength)
   \<and> (length vs = 256 \<and> (\<forall>v \<in> set vs. 0 \<le> v \<and> v \<le> 255) \<and> \<not> distinct vs
        \<longrightarrow> validateSBoxValues vs = Inl NotAPermutation)
   \<and> (is_byte_array xs \<and> \<not> is_permutation xs
        \<longrightarrow> (\<exists>r. runAnalysis xs = Inr (r, generateSummary r)
                 \<and> \<not> isBalanced_flag (sboxProperties r) \<and> \<not> isBijection_flag (sboxProperties r)))"
proof -
  have "is_byte_array xs \<and> \<not> is_permutation xs
        \<longrightarrow> (\<exists>r. runAnalysis xs = Inr (r, generateSummary r)
                 \<and> \<not> isBalanced_flag (sboxProperties r) \<and> \<not> isBijection_flag (sboxProperties r))"
  proof
    assume h: "is_byte_array xs \<and> \<not> is_permutation xs"
    then have "length xs = 256" by (simp add: is_byte_array_def)
    from runAnalysis_256 [OF this] show "\<exists>r. runAnalysis xs = Inr (r, generateSummary r)
                 \<and> \<not> isBalanced_flag (sboxProperties r) \<and> \<not> isBijection_flag (sboxProperties r)"
      using h isBalanced_iff [of xs] isBijection_iff [of xs] by auto
  qed
  then show ?thesis
    by (simp add: runAnalysis_length validateSBoxValues_length validateSBoxValues_bytes)
qed

lemma dup_int_not_distinct: "\<not> distinct (map int duplicate7_missing42)"
proof
  assume "distinct (map int duplicate7_missing42)"
  then have "distinct duplicate7_missing42"
    by (simp add: distinct_map)
  moreover have "duplicate7_missing42 ! 7 = duplicate7_missing42 ! 42"
    by (simp add: dup_nth)
  ultimately show False
    by (simp add: distinct_conv_nth dup_length)
qed

lemma dup_int_range: "\<forall>v \<in> set (map int duplicate7_missing42). 0 \<le> v \<and> v \<le> 255"
  using dup_byte_array by (auto simp: byte_array_iff)

theorem invalid_input_rejection_witness:
  "runAnalysis (replicate 255 0) = Inl (Inl InvalidSBoxLength)
   \<and> validateSBoxValues (replicate 255 0) = Inl InvalidSBoxLength
   \<and> validateSBoxValues (map int duplicate7_missing42) = Inl NotAPermutation
   \<and> (\<exists>r. runAnalysis duplicate7_missing42 = Inr (r, generateSummary r)
          \<and> \<not> isBalanced_flag (sboxProperties r) \<and> \<not> isBijection_flag (sboxProperties r))"
  using invalid_input_rejection [of "replicate 255 0" "replicate 255 0"]
    invalid_input_rejection [of duplicate7_missing42 "map int duplicate7_missing42"]
    dup_int_not_distinct dup_int_range dup_byte_array dup_not_permutation dup_length
  by simp

end
